theory Spec2Isabelle
  imports Main
begin

section \<open>Values of the grid model\<close>

text \<open>
  Attribute values are the JSON-like values a cell attribute can hold at run time
  (\<^verbatim>\<open>name\<close> is a string, \<^verbatim>\<open>type\<close> a string tag, \<^verbatim>\<open>styleOverride\<close> an object of
  strings, numbers, booleans and nested override objects). \<open>JUndefined\<close> is the value
  \<^verbatim>\<open>undefined\<close>: an absent property reads as it. Numbers are modelled as integers.
\<close>

datatype jsval =
    JUndefined
  | JNull
  | JBool bool
  | JNum int
  | JStr string
  | JObj "(string \<times> jsval) list"

text \<open>\<^verbatim>\<open>keyof PureCell\<close>\<close>

datatype attribute = name | type | styleOverride

record PureCell =
  name_of :: jsval
  type_of :: jsval
  styleOverride_of :: jsval

text \<open>
  \<^verbatim>\<open>type Cell = PureCell | null\<close>. Reading a JavaScript array outside its range, or at a
  hole, gives \<^verbatim>\<open>undefined\<close>: \<open>CUndefined\<close>.
\<close>

datatype Cell = CUndefined | CNull | CObj PureCell

fun getAttr :: "attribute \<Rightarrow> PureCell \<Rightarrow> jsval" where
  "getAttr name c = name_of c"
| "getAttr type c = type_of c"
| "getAttr styleOverride c = styleOverride_of c"

text \<open>\<^verbatim>\<open>cell[attribute] = v\<close>\<close>

fun setAttr :: "attribute \<Rightarrow> jsval \<Rightarrow> PureCell \<Rightarrow> PureCell" where
  "setAttr name v c = c\<lparr>name_of := v\<rparr>"
| "setAttr type v c = c\<lparr>type_of := v\<rparr>"
| "setAttr styleOverride v c = c\<lparr>styleOverride_of := v\<rparr>"

subsection \<open>deepClone\<close>

text \<open>
  \<^verbatim>\<open>deepClone(obj) = JSON.parse(JSON.stringify(obj))\<close>. Inside an object a property whose
  value is \<^verbatim>\<open>undefined\<close> is dropped; inside an array \<^verbatim>\<open>undefined\<close> becomes \<^verbatim>\<open>null\<close>; at the
  top, \<^verbatim>\<open>JSON.stringify(undefined)\<close> is \<^verbatim>\<open>undefined\<close> and \<^verbatim>\<open>JSON.parse\<close> of it throws a
  SyntaxError.
\<close>

fun cloneVal :: "jsval \<Rightarrow> jsval"
  and cloneProps :: "(string \<times> jsval) list \<Rightarrow> (string \<times> jsval) list" where
  "cloneVal (JObj ps) = JObj (cloneProps ps)"
| "cloneVal JUndefined = JUndefined"
| "cloneVal JNull = JNull"
| "cloneVal (JBool b) = JBool b"
| "cloneVal (JNum n) = JNum n"
| "cloneVal (JStr s) = JStr s"
| "cloneProps [] = []"
| "cloneProps ((k, v) # ps) =
     (if v = JUndefined then cloneProps ps else (k, cloneVal v) # cloneProps ps)"

datatype error = TypeError | SyntaxError | RangeError

text \<open>An attribute value at the top level.\<close>

definition deepClone :: "jsval \<Rightarrow> error + jsval" where
  "deepClone v = (if v = JUndefined then Inl SyntaxError else Inr (cloneVal v))"

text \<open>An array of attribute values.\<close>

definition deepCloneArr :: "jsval list \<Rightarrow> jsval list" where
  "deepCloneArr vs = map (\<lambda>v. if v = JUndefined then JNull else cloneVal v) vs"

text \<open>A cell object: each property is cloned, an undefined one stays absent.\<close>

definition clonePureCell :: "PureCell \<Rightarrow> PureCell" where
  "clonePureCell c =
     \<lparr>name_of = cloneVal (name_of c), type_of = cloneVal (type_of c),
      styleOverride_of = cloneVal (styleOverride_of c)\<rparr>"

fun deepCloneCell :: "Cell \<Rightarrow> error + Cell" where
  "deepCloneCell CUndefined = Inl SyntaxError"
| "deepCloneCell CNull = Inr CNull"
| "deepCloneCell (CObj c) = Inr (CObj (clonePureCell c))"

fun cloneCellElem :: "Cell \<Rightarrow> Cell" where
  "cloneCellElem CUndefined = CNull"
| "cloneCellElem CNull = CNull"
| "cloneCellElem (CObj c) = CObj (clonePureCell c)"

definition deepCloneCells :: "Cell list \<Rightarrow> Cell list" where
  "deepCloneCells cs = map cloneCellElem cs"


section \<open>The history engine (class MapLayoutHistory)\<close>

text \<open>
  Arguments are values: an object handed to an operation is taken to be the caller's
  own fresh copy, not shared with another slot of the model and not changed by the
  caller afterwards. The log holds values too. In the code \<^verbatim>\<open>undo\<close> and \<^verbatim>\<open>redo\<close> of a swap
  store the logged cell object itself into the model, so that a later change of an
  attribute of that cell changes the logged object with it; the model does not follow
  this sharing, and the contents of its log can differ from the code's after such a
  change. Cell indices are array indices (natural numbers).
\<close>

datatype MapLayoutHistoryEntry =
    ChangeAttribute nat attribute jsval jsval
  | ChangeAttributes "nat list" attribute "jsval list" "jsval list"
  | SwappedCell nat Cell Cell
  | SwappedCells "nat list" "Cell list" "Cell list"

text \<open>
  \<open>cells\<close> is \<^verbatim>\<open>mapLayout.cells\<close>, \<open>history\<close> and \<open>i\<close> are the private fields. \<open>console\<close>
  collects the messages of \<^verbatim>\<open>console.error\<close>, oldest first.
\<close>

record MapLayoutHistory =
  cells :: "Cell list"
  history :: "MapLayoutHistoryEntry list"
  i :: int
  console :: "string list"

text \<open>\<^verbatim>\<open>new MapLayoutHistory(mapLayout)\<close>\<close>

definition newMapLayoutHistory :: "Cell list \<Rightarrow> MapLayoutHistory" where
  "newMapLayoutHistory cs = \<lparr>cells = cs, history = [], i = 0, console = []\<rparr>"

definition console_error :: "string \<Rightarrow> MapLayoutHistory \<Rightarrow> MapLayoutHistory" where
  "console_error msg s = s\<lparr>console := console s @ [msg]\<rparr>"

text \<open>\<^verbatim>\<open>cells[k]\<close>: outside the array the read gives \<^verbatim>\<open>undefined\<close>.\<close>

definition cellAt :: "Cell list \<Rightarrow> nat \<Rightarrow> Cell" where
  "cellAt cs k = (if k < length cs then cs ! k else CUndefined)"

text \<open>\<^verbatim>\<open>cells[k] = v\<close>: a write beyond the end extends the array, leaving holes.\<close>

definition setCell :: "Cell list \<Rightarrow> nat \<Rightarrow> Cell \<Rightarrow> Cell list" where
  "setCell cs k v =
     (if k < length cs then cs[k := v]
      else cs @ replicate (k - length cs) CUndefined @ [v])"

text \<open>\<^verbatim>\<open>history[i]\<close>\<close>

definition entryAt :: "MapLayoutHistoryEntry list \<Rightarrow> int \<Rightarrow> MapLayoutHistoryEntry option" where
  "entryAt h k = (if 0 \<le> k \<and> k < int (length h) then Some (h ! nat k) else None)"

text \<open>\<^verbatim>\<open>arr[k]\<close> for the head of what is left of a parallel array: \<^verbatim>\<open>undefined\<close> when the
  array is shorter than the index array.\<close>

fun headVal :: "jsval list \<Rightarrow> jsval" where
  "headVal [] = JUndefined"
| "headVal (v # vs) = v"

fun headCell :: "Cell list \<Rightarrow> Cell" where
  "headCell [] = CUndefined"
| "headCell (c # cs) = c"

definition msg_no_undo_entry :: string where
  "msg_no_undo_entry = ''Cannot undo when no history entry is present for desired step.''"

definition msg_no_redo_entry :: string where
  "msg_no_redo_entry = ''Cannot redo when no history entry is present for desired step.''"

definition msg_no_cell :: string where
  "msg_no_cell = ''Cannot change attribute on cell that doesn't exist''"

definition msg_undefined_was :: string where
  "msg_undefined_was = ''Cannot change attribute with undefined was.''"

subsection \<open>undo\<close>

text \<open>The loop of the \<^verbatim>\<open>changeAttributes\<close> branch; a \<^verbatim>\<open>return\<close> inside it ends \<^verbatim>\<open>undo\<close>.\<close>

fun undoChangeAttributes ::
  "attribute \<Rightarrow> nat list \<Rightarrow> jsval list \<Rightarrow> MapLayoutHistory \<Rightarrow> MapLayoutHistory" where
  "undoChangeAttributes attr [] was s = s"
| "undoChangeAttributes attr (cellIndex # rest) was s =
     (case cellAt (cells s) cellIndex of
        CNull \<Rightarrow> s
      | CUndefined \<Rightarrow> console_error msg_no_cell s
      | CObj cell \<Rightarrow>
          (let s1 = (if headVal was = JUndefined then console_error msg_undefined_was s else s)
           in undoChangeAttributes attr rest (tl was)
                (s1\<lparr>cells := (cells s1)[cellIndex := CObj (setAttr attr (headVal was) cell)]\<rparr>)))"

text \<open>The loops of the \<^verbatim>\<open>swappedCells\<close> branches of \<^verbatim>\<open>undo\<close> and \<^verbatim>\<open>redo\<close>.\<close>

fun writeCells :: "nat list \<Rightarrow> Cell list \<Rightarrow> Cell list \<Rightarrow> Cell list" where
  "writeCells [] vs cs = cs"
| "writeCells (k # ks) vs cs = writeCells ks (tl vs) (setCell cs k (headCell vs))"

text \<open>
  In the \<^verbatim>\<open>swappedCell\<close> and \<^verbatim>\<open>swappedCells\<close> branches the code stores the object
  \<^verbatim>\<open>entry.was\<close> itself into the slot; here the slot receives its value, and the entry keeps
  that value whatever is written to the cell afterwards.
\<close>

definition undo :: "MapLayoutHistory \<Rightarrow> error option \<times> MapLayoutHistory" where
  "undo s =
     (if history s = [] then (None, s)
      else
        let s1 = (if i s \<noteq> 0 then s\<lparr>i := i s - 1\<rparr> else s) in
        case entryAt (history s1) (i s1) of
          None \<Rightarrow> (None, console_error msg_no_undo_entry s1)
        | Some (SwappedCell index was became) \<Rightarrow>
            (None, s1\<lparr>cells := setCell (cells s1) index was\<rparr>)
        | Some (ChangeAttribute index attr was became) \<Rightarrow>
            (case cellAt (cells s1) index of
               CObj cell \<Rightarrow> (None, s1\<lparr>cells := (cells s1)[index := CObj (setAttr attr was cell)]\<rparr>)
             | _ \<Rightarrow> (None, console_error msg_no_cell s1))
        | Some (ChangeAttributes index attr was became) \<Rightarrow>
            (None, undoChangeAttributes attr index was s1)
        | Some (SwappedCells index was became) \<Rightarrow>
            (None, s1\<lparr>cells := writeCells index was (cells s1)\<rparr>))"

subsection \<open>redo\<close>

text \<open>How the loop of the \<^verbatim>\<open>changeAttributes\<close> branch of \<^verbatim>\<open>redo\<close> ends: it runs to its end,
  returns from \<^verbatim>\<open>redo\<close> at a \<^verbatim>\<open>null\<close> cell, or throws at a missing one.\<close>

datatype loop_exit = Completed | EarlyReturn | Threw

fun redoChangeAttributes ::
  "attribute \<Rightarrow> nat list \<Rightarrow> jsval list \<Rightarrow> Cell list \<Rightarrow> loop_exit \<times> Cell list" where
  "redoChangeAttributes attr [] became cs = (Completed, cs)"
| "redoChangeAttributes attr (k # rest) became cs =
     (case cellAt cs k of
        CNull \<Rightarrow> (EarlyReturn, cs)
      | CUndefined \<Rightarrow> (Threw, cs)
      | CObj cell \<Rightarrow>
          redoChangeAttributes attr rest (tl became)
            (cs[k := CObj (setAttr attr (headVal became) cell)]))"

text \<open>
  As in \<^verbatim>\<open>undo\<close>, the swap branches store the value of \<^verbatim>\<open>entry.became\<close> where the code
  stores the object itself.
\<close>

definition redo :: "MapLayoutHistory \<Rightarrow> error option \<times> MapLayoutHistory" where
  "redo s =
     (if history s = [] then (None, s)
      else
        case entryAt (history s) (i s) of
          None \<Rightarrow> (None, console_error msg_no_redo_entry s)
        | Some (SwappedCell index was became) \<Rightarrow>
            (None, s\<lparr>cells := setCell (cells s) index became, i := i s + 1\<rparr>)
        | Some (ChangeAttribute index attr was became) \<Rightarrow>
            (case cellAt (cells s) index of
               CNull \<Rightarrow> (None, s)
             | CUndefined \<Rightarrow> (Some TypeError, s)
             | CObj cell \<Rightarrow>
                 (None, s\<lparr>cells := (cells s)[index := CObj (setAttr attr became cell)],
                           i := i s + 1\<rparr>))
        | Some (ChangeAttributes index attr was became) \<Rightarrow>
            (case redoChangeAttributes attr index became (cells s) of
               (Completed, cs) \<Rightarrow> (None, s\<lparr>cells := cs, i := i s + 1\<rparr>)
             | (EarlyReturn, cs) \<Rightarrow> (None, s\<lparr>cells := cs\<rparr>)
             | (Threw, cs) \<Rightarrow> (Some TypeError, s\<lparr>cells := cs\<rparr>))
        | Some (SwappedCells index was became) \<Rightarrow>
            (None, s\<lparr>cells := writeCells index became (cells s), i := i s + 1\<rparr>))"

subsection \<open>The commit operations\<close>

text \<open>The entry as \<^verbatim>\<open>addHistoryEntry\<close> stores it: \<^verbatim>\<open>was\<close> and \<^verbatim>\<open>became\<close> deep-cloned.\<close>

fun cloneEntry :: "MapLayoutHistoryEntry \<Rightarrow> error + MapLayoutHistoryEntry" where
  "cloneEntry (ChangeAttribute index attr was became) =
     (case deepClone was of Inl e \<Rightarrow> Inl e
      | Inr w \<Rightarrow> (case deepClone became of Inl e \<Rightarrow> Inl e
          | Inr b \<Rightarrow> Inr (ChangeAttribute index attr w b)))"
| "cloneEntry (ChangeAttributes index attr was became) =
     Inr (ChangeAttributes index attr (deepCloneArr was) (deepCloneArr became))"
| "cloneEntry (SwappedCell index was became) =
     (case deepCloneCell was of Inl e \<Rightarrow> Inl e
      | Inr w \<Rightarrow> (case deepCloneCell became of Inl e \<Rightarrow> Inl e
          | Inr b \<Rightarrow> Inr (SwappedCell index w b)))"
| "cloneEntry (SwappedCells index was became) =
     Inr (SwappedCells index (deepCloneCells was) (deepCloneCells became))"

text \<open>
  \<^verbatim>\<open>if (history.length > i + 1) history.length = i + 1\<close>, then the push of the cloned
  entry, then \<^verbatim>\<open>i = history.length\<close>. Setting a negative array length throws a RangeError;
  a clone that throws does so after the truncation and before the push.
\<close>

definition addHistoryEntry ::
  "MapLayoutHistoryEntry \<Rightarrow> MapLayoutHistory \<Rightarrow> error option \<times> MapLayoutHistory" where
  "addHistoryEntry entry s =
     (if int (length (history s)) > i s + 1 \<and> i s + 1 < 0 then (Some RangeError, s)
      else
        let s1 = (if int (length (history s)) > i s + 1
                  then s\<lparr>history := take (nat (i s + 1)) (history s)\<rparr> else s) in
        case cloneEntry entry of
          Inl e \<Rightarrow> (Some e, s1)
        | Inr entry' \<Rightarrow>
            (None, s1\<lparr>history := history s1 @ [entry'],
                       i := int (length (history s1 @ [entry']))\<rparr>))"

definition swapCell :: "nat \<Rightarrow> Cell \<Rightarrow> Cell \<Rightarrow> MapLayoutHistory \<Rightarrow> error option \<times> MapLayoutHistory" where
  "swapCell index from to s =
     addHistoryEntry (SwappedCell index from to) (s\<lparr>cells := setCell (cells s) index to\<rparr>)"

text \<open>The loop of \<^verbatim>\<open>swapCells\<close>: \<^verbatim>\<open>cells[index[k]] = deepClone(to[k])\<close>.\<close>

fun swapCellsLoop :: "nat list \<Rightarrow> Cell list \<Rightarrow> Cell list \<Rightarrow> error option \<times> Cell list" where
  "swapCellsLoop [] to cs = (None, cs)"
| "swapCellsLoop (k # ks) to cs =
     (case deepCloneCell (headCell to) of
        Inl e \<Rightarrow> (Some e, cs)
      | Inr c \<Rightarrow> swapCellsLoop ks (tl to) (setCell cs k c))"

definition swapCells ::
  "nat list \<Rightarrow> Cell list \<Rightarrow> Cell list \<Rightarrow> MapLayoutHistory \<Rightarrow> error option \<times> MapLayoutHistory" where
  "swapCells index from to s =
     (case swapCellsLoop index to (cells s) of
        (Some e, cs) \<Rightarrow> (Some e, s\<lparr>cells := cs\<rparr>)
      | (None, cs) \<Rightarrow> addHistoryEntry (SwappedCells index from to) (s\<lparr>cells := cs\<rparr>))"

text \<open>\<^verbatim>\<open>cells[index][attribute] = to\<close> throws a TypeError when the slot holds \<^verbatim>\<open>null\<close> or
  \<^verbatim>\<open>undefined\<close>.\<close>

definition changeAttribute ::
  "nat \<Rightarrow> attribute \<Rightarrow> jsval \<Rightarrow> jsval \<Rightarrow> MapLayoutHistory \<Rightarrow> error option \<times> MapLayoutHistory" where
  "changeAttribute index attr from to s =
     (case cellAt (cells s) index of
        CObj cell \<Rightarrow>
          addHistoryEntry (ChangeAttribute index attr from to)
            (s\<lparr>cells := (cells s)[index := CObj (setAttr attr to cell)]\<rparr>)
      | _ \<Rightarrow> (Some TypeError, s))"

fun changeAttributesLoop ::
  "attribute \<Rightarrow> nat list \<Rightarrow> jsval list \<Rightarrow> Cell list \<Rightarrow> error option \<times> Cell list" where
  "changeAttributesLoop attr [] to cs = (None, cs)"
| "changeAttributesLoop attr (k # ks) to cs =
     (case cellAt cs k of
        CObj cell \<Rightarrow>
          changeAttributesLoop attr ks (tl to) (cs[k := CObj (setAttr attr (headVal to) cell)])
      | _ \<Rightarrow> (Some TypeError, cs))"

definition changeAttributes ::
  "nat list \<Rightarrow> attribute \<Rightarrow> jsval list \<Rightarrow> jsval list \<Rightarrow> MapLayoutHistory
     \<Rightarrow> error option \<times> MapLayoutHistory" where
  "changeAttributes index attr from to s =
     (case changeAttributesLoop attr index to (cells s) of
        (Some e, cs) \<Rightarrow> (Some e, s\<lparr>cells := cs\<rparr>)
      | (None, cs) \<Rightarrow> addHistoryEntry (ChangeAttributes index attr from to) (s\<lparr>cells := cs\<rparr>))"


text \<open>
  A client of the engine: one call of the public interface. A call that throws leaves
  the object in the state the throw found it in, and later calls go on from there.
\<close>

datatype call =
    Undo
  | Redo
  | CallChangeAttribute nat attribute jsval jsval
  | CallChangeAttributes "nat list" attribute "jsval list" "jsval list"
  | CallSwapCell nat Cell Cell
  | CallSwapCells "nat list" "Cell list" "Cell list"

fun perform :: "call \<Rightarrow> MapLayoutHistory \<Rightarrow> error option \<times> MapLayoutHistory" where
  "perform Undo s = undo s"
| "perform Redo s = redo s"
| "perform (CallChangeAttribute index attr from to) s = changeAttribute index attr from to s"
| "perform (CallChangeAttributes index attr from to) s = changeAttributes index attr from to s"
| "perform (CallSwapCell index from to) s = swapCell index from to s"
| "perform (CallSwapCells index from to) s = swapCells index from to s"

fun run :: "call list \<Rightarrow> MapLayoutHistory \<Rightarrow> MapLayoutHistory" where
  "run [] s = s"
| "run (c # cs) s = run cs (snd (perform c s))"

section \<open>The collision dispatcher (class CollisionManager)\<close>

text \<open>
  Coordinates are modelled as integers. \<open>reference\<close> is \<open>None\<close> for the sentinel \<^verbatim>\<open>-1\<close>.
\<close>

record 'ref Collision =
  col_x :: int
  col_y :: int
  col_width :: int
  col_height :: int
  reference :: "'ref option"

text \<open>
  A listener is a callback of the caller's; the model names it by a value of type \<open>'l\<close>
  and records each invocation, in order, with its arguments.
\<close>

datatype listener_kind = Click | Hover | Drag | DragEnd

datatype ('ref, 'l) invocation =
    CollisionCallback listener_kind 'l "'ref Collision" "int list"
  | DragCallback listener_kind 'l int int "int list"

record ('ref, 'l) CollisionManager =
  collisions :: "'ref Collision list"
  activeClickCollisions :: "'ref Collision list"
  activeHoverCollisions :: "'ref Collision list"
  listeners_click :: "'l list"
  listeners_hover :: "'l list"
  listeners_drag :: "'l list"
  listeners_dragend :: "'l list"
  drag_start :: "int \<times> int"
  drag_latest :: "int \<times> int"
  mouseButtonsDown :: "int list"

definition newCollisionManager :: "('ref, 'l) CollisionManager" where
  "newCollisionManager =
     \<lparr>collisions = [], activeClickCollisions = [], activeHoverCollisions = [],
      listeners_click = [], listeners_hover = [], listeners_drag = [], listeners_dragend = [],
      drag_start = (0, 0), drag_latest = (0, 0), mouseButtonsDown = []\<rparr>"

text \<open>A mouse event: \<^verbatim>\<open>button\<close>, \<^verbatim>\<open>offsetX\<close>, \<^verbatim>\<open>offsetY\<close>.\<close>

record MouseEvent =
  button :: int
  offsetX :: int
  offsetY :: int

definition mousedown ::
  "MouseEvent \<Rightarrow> ('ref, 'l) CollisionManager \<Rightarrow> ('ref, 'l) CollisionManager" where
  "mousedown event s =
     (let s1 = s\<lparr>drag_latest := (offsetX event, offsetY event),
                 drag_start := (offsetX event, offsetY event)\<rparr>
      in if button event \<notin> set (mouseButtonsDown s1)
         then s1\<lparr>mouseButtonsDown := mouseButtonsDown s1 @ [button event]\<rparr>
         else s1)"

text \<open>The collision handed to the hover listeners when no region is hovered.\<close>

definition noCollision :: "'ref Collision" where
  "noCollision = \<lparr>col_x = - 1, col_y = - 1, col_width = 0, col_height = 0, reference = None\<rparr>"

definition mousemove ::
  "MouseEvent \<Rightarrow> ('ref, 'l) CollisionManager
     \<Rightarrow> ('ref, 'l) invocation list \<times> ('ref, 'l) CollisionManager" where
  "mousemove event s =
     (let drags =
            (if offsetX event \<noteq> fst (drag_latest s) \<or> offsetY event \<noteq> snd (drag_latest s)
             then map (\<lambda>listener. DragCallback Drag listener
                         (offsetX event - fst (drag_latest s))
                         (offsetY event - snd (drag_latest s)) (mouseButtonsDown s))
                    (listeners_drag s)
             else []);
          s1 = s\<lparr>drag_latest := (offsetX event, offsetY event)\<rparr>;
          s2 = s1\<lparr>activeHoverCollisions :=
                  filter (\<lambda>collision.
                      col_x collision \<le> offsetX event \<and>
                      col_x collision + col_width collision \<ge> offsetX event \<and>
                      col_y collision \<le> offsetY event \<and>
                      col_y collision + col_height collision \<ge> offsetY event)
                    (collisions s1)\<rparr>;
          hovers = concat (map (\<lambda>collision.
                       map (\<lambda>listener. CollisionCallback Hover listener collision
                              (mouseButtonsDown s2)) (listeners_hover s2))
                     (activeHoverCollisions s2));
          exits = (if length (activeHoverCollisions s2) = 0
                   then map (\<lambda>listener. CollisionCallback Hover listener noCollision
                               (mouseButtonsDown s2)) (listeners_hover s2)
                   else [])
      in (drags @ hovers @ exits, s2))"

definition mouseup ::
  "MouseEvent \<Rightarrow> ('ref, 'l) CollisionManager
     \<Rightarrow> ('ref, 'l) invocation list \<times> ('ref, 'l) CollisionManager" where
  "mouseup event s =
     (let s1 = (if offsetX event = fst (drag_start s) \<and> offsetY event = snd (drag_start s)
                then s\<lparr>activeClickCollisions :=
                        filter (\<lambda>collision.
                            col_x collision \<le> offsetX event \<and>
                            col_x collision + col_width collision \<ge> offsetX event \<and>
                            col_y collision \<le> offsetY event \<and>
                            col_y collision + col_height collision \<ge> offsetY event)
                          (collisions s)\<rparr>
                else s\<lparr>activeClickCollisions := []\<rparr>);
          clicks = concat (map (\<lambda>collision.
                       map (\<lambda>listener. CollisionCallback Click listener collision
                              (mouseButtonsDown s1)) (listeners_click s1))
                     (activeClickCollisions s1));
          dragends = (if length (activeClickCollisions s1) = 0
                      then map (\<lambda>listener. DragCallback DragEnd listener
                                  (offsetX event - fst (drag_latest s1))
                                  (offsetY event - snd (drag_latest s1)) (mouseButtonsDown s1))
                             (listeners_dragend s1)
                      else []);
          s2 = s1\<lparr>activeClickCollisions := []\<rparr>
      in (clicks @ dragends, s2\<lparr>mouseButtonsDown := remove1 (button event) (mouseButtonsDown s2)\<rparr>))"

definition addEventListener ::
  "listener_kind \<Rightarrow> 'l \<Rightarrow> ('ref, 'l) CollisionManager \<Rightarrow> ('ref, 'l) CollisionManager" where
  "addEventListener kind callback s =
     (case kind of
        Click \<Rightarrow> s\<lparr>listeners_click := listeners_click s @ [callback]\<rparr>
      | Hover \<Rightarrow> s\<lparr>listeners_hover := listeners_hover s @ [callback]\<rparr>
      | Drag \<Rightarrow> s\<lparr>listeners_drag := listeners_drag s @ [callback]\<rparr>
      | DragEnd \<Rightarrow> s\<lparr>listeners_dragend := listeners_dragend s @ [callback]\<rparr>)"

definition registerCollisions ::
  "'ref Collision list \<Rightarrow> ('ref, 'l) CollisionManager \<Rightarrow> ('ref, 'l) CollisionManager" where
  "registerCollisions cs s = s\<lparr>collisions := cs\<rparr>"

text \<open>Modelled from the spec: \<^verbatim>\<open>MouseButtons.LEFT\<close> of \<^verbatim>\<open>./data\<close>, which is not among the
  sources; the implicit left button, with the code the DOM gives it.\<close>

definition MouseButtons_LEFT :: int where
  "MouseButtons_LEFT = 0"

definition leftClick ::
  "int \<Rightarrow> int \<Rightarrow> ('ref, 'l) CollisionManager
     \<Rightarrow> ('ref, 'l) invocation list \<times> ('ref, 'l) CollisionManager" where
  "leftClick px py s =
     (let s1 = s\<lparr>activeClickCollisions :=
                   filter (\<lambda>collision.
                       col_x collision \<le> px \<and>
                       col_x collision + col_width collision \<ge> px \<and>
                       col_y collision \<le> py \<and>
                       col_y collision + col_height collision \<ge> py)
                     (collisions s)\<rparr>
      in (concat (map (\<lambda>collision.
                    map (\<lambda>listener. CollisionCallback Click listener collision
                           [MouseButtons_LEFT]) (listeners_click s1))
                  (activeClickCollisions s1)),
          s1))"

text \<open>The hit-test rule in the specification's words.\<close>

definition contained :: "int \<Rightarrow> int \<Rightarrow> 'ref Collision \<Rightarrow> bool" where
  "contained px py r =
     (col_x r \<le> px \<and> px \<le> col_x r + col_width r \<and>
      col_y r \<le> py \<and> py \<le> col_y r + col_height r)"


section \<open>Element addressing (class EditMenu)\<close>

text \<open>
  A string is a list of characters with codes below 256. \<^verbatim>\<open>type EditMenuElement\<close>: every
  element has a label; the callback of a button is left out.
\<close>

datatype EditMenuElement =
    Input string string
  | Button string
  | Checkbox string string
  | Label string
  | HSelect string "string list"
  | Group string "EditMenuElement list"

subsection \<open>parseInt, match, toString\<close>

text \<open>The value of a character as a digit, up to radix 16.\<close>

definition digitValue :: "char \<Rightarrow> nat option" where
  "digitValue c =
     map_of [(CHR ''0'', 0), (CHR ''1'', 1), (CHR ''2'', 2), (CHR ''3'', 3), (CHR ''4'', 4),
             (CHR ''5'', 5), (CHR ''6'', 6), (CHR ''7'', 7), (CHR ''8'', 8), (CHR ''9'', 9),
             (CHR ''a'', 10), (CHR ''b'', 11), (CHR ''c'', 12), (CHR ''d'', 13), (CHR ''e'', 14),
             (CHR ''f'', 15), (CHR ''A'', 10), (CHR ''B'', 11), (CHR ''C'', 12), (CHR ''D'', 13),
             (CHR ''E'', 14), (CHR ''F'', 15)] c"

definition isRadixDigit :: "nat \<Rightarrow> char \<Rightarrow> bool" where
  "isRadixDigit radix c = (case digitValue c of None \<Rightarrow> False | Some d \<Rightarrow> d < radix)"

text \<open>\<^verbatim>\<open>\d\<close>\<close>

definition isDecimalDigit :: "char \<Rightarrow> bool" where
  "isDecimalDigit c = isRadixDigit 10 c"

text \<open>White space and line terminators that \<^verbatim>\<open>parseInt\<close> skips: tab, line feed, vertical
  tab, form feed, carriage return, space, no-break space.\<close>

definition isStrWhiteSpaceChar :: "char \<Rightarrow> bool" where
  "isStrWhiteSpaceChar c = (of_char c \<in> {9, 10, 11, 12, 13, 32, 160 :: nat})"

text \<open>The number a digit string denotes, most significant digit first.\<close>

fun digitsValue :: "nat \<Rightarrow> nat \<Rightarrow> string \<Rightarrow> nat" where
  "digitsValue radix acc [] = acc"
| "digitsValue radix acc (c # cs) =
     digitsValue radix (acc * radix + (case digitValue c of None \<Rightarrow> 0 | Some d \<Rightarrow> d)) cs"

text \<open>
  \<^verbatim>\<open>parseInt(s)\<close> with no radix: leading white space is skipped, a sign is read, a prefix
  \<^verbatim>\<open>0x\<close> or \<^verbatim>\<open>0X\<close> selects radix 16, and the longest run of digits that follows is the
  number, whatever comes after it. With no digit the result is \<^verbatim>\<open>NaN\<close>: \<open>None\<close>. The result
  is the exact integer.
\<close>

definition parseInt :: "string \<Rightarrow> int option" where
  "parseInt inputString =
     (let s0 = dropWhile isStrWhiteSpaceChar inputString;
          sign = (case s0 of c # _ \<Rightarrow> if c = CHR ''-'' then - 1 else 1 | [] \<Rightarrow> (1 :: int));
          s1 = (case s0 of c # r \<Rightarrow> if c = CHR ''+'' \<or> c = CHR ''-'' then r else s0 | [] \<Rightarrow> s0);
          hex = (case s1 of c # d # _ \<Rightarrow> c = CHR ''0'' \<and> (d = CHR ''x'' \<or> d = CHR ''X'')
                 | _ \<Rightarrow> False);
          radix = (if hex then 16 else 10);
          s2 = (if hex then drop 2 s1 else s1);
          z = takeWhile (isRadixDigit radix) s2
      in if z = [] then None else Some (sign * int (digitsValue radix 0 z)))"

text \<open>\<^verbatim>\<open>ref.match(/^(\d+)_(\d+)$/)\<close>: the two captured strings.\<close>

definition matchGroupItem :: "string \<Rightarrow> (string \<times> string) option" where
  "matchGroupItem ref =
     (let m1 = takeWhile isDecimalDigit ref in
      case dropWhile isDecimalDigit ref of
        [] \<Rightarrow> None
      | c # m2 \<Rightarrow>
          if c = CHR ''_'' \<and> m1 \<noteq> [] \<and> m2 \<noteq> [] \<and> list_all isDecimalDigit m2
          then Some (m1, m2) else None)"

definition digitChar :: "nat \<Rightarrow> char" where
  "digitChar d = ''0123456789'' ! d"

text \<open>\<^verbatim>\<open>n.toString()\<close> of an array index.\<close>

fun toString :: "nat \<Rightarrow> string" where
  "toString n = (if n < 10 then [digitChar n] else toString (n div 10) @ [digitChar (n mod 10)])"

subsection \<open>parseRef and getInputByRef\<close>

record ParsedRef =
  groupIndex :: "int option"
  itemIndex :: int
  controlSymbol :: "string option"

definition endsWith :: "string \<Rightarrow> char \<Rightarrow> bool" where
  "endsWith s c = (s \<noteq> [] \<and> last s = c)"

text \<open>
  The captured strings are non-empty runs of decimal digits, for which \<^verbatim>\<open>parseInt\<close> is
  never \<^verbatim>\<open>NaN\<close>; the model gives that case the value \<open>None\<close>.
\<close>

definition parseRef :: "string \<Rightarrow> ParsedRef option" where
  "parseRef ref0 =
     (let symbol = (if endsWith ref0 (CHR ''-'') \<or> endsWith ref0 (CHR ''+'')
                    then Some [last ref0] else None);
          ref = (if endsWith ref0 (CHR ''-'') \<or> endsWith ref0 (CHR ''+'')
                 then butlast ref0 else ref0)
      in if CHR ''_'' \<in> set ref then
           (case matchGroupItem ref of
              None \<Rightarrow> None
            | Some (m1, m2) \<Rightarrow>
                (case (parseInt m1, parseInt m2) of
                   (Some g, Some n) \<Rightarrow>
                     Some \<lparr>groupIndex = Some g, itemIndex = n, controlSymbol = symbol\<rparr>
                 | _ \<Rightarrow> None))
         else
           (case parseInt ref of
              Some n \<Rightarrow> Some \<lparr>groupIndex = None, itemIndex = n, controlSymbol = symbol\<rparr>
            | None \<Rightarrow> None))"

text \<open>\<^verbatim>\<open>arr[n]\<close> for a number \<^verbatim>\<open>n\<close>: \<^verbatim>\<open>undefined\<close> (\<open>None\<close>) unless \<^verbatim>\<open>n\<close> is an index of the array.\<close>

definition elementAt :: "'a list \<Rightarrow> int \<Rightarrow> 'a option" where
  "elementAt xs n = (if 0 \<le> n \<and> n < int (length xs) then Some (xs ! nat n) else None)"

text \<open>The result is \<open>None\<close> where the code returns \<^verbatim>\<open>null\<close> or \<^verbatim>\<open>undefined\<close>.\<close>

definition getInputByRef :: "EditMenuElement list \<Rightarrow> string \<Rightarrow> EditMenuElement option" where
  "getInputByRef elements ref =
     (case parseRef ref of
        None \<Rightarrow> None
      | Some inputIndices \<Rightarrow>
          (case groupIndex inputIndices of
             None \<Rightarrow> elementAt elements (itemIndex inputIndices)
           | Some g \<Rightarrow>
               (case elementAt elements g of
                  Some (Group l es) \<Rightarrow> elementAt es (itemIndex inputIndices)
                | _ \<Rightarrow> None)))"

subsection \<open>getNextInputRef\<close>

fun isInput :: "EditMenuElement \<Rightarrow> bool" where
  "isInput (Input l v) = True"
| "isInput e = False"

text \<open>\<^verbatim>\<open>elements.filter(element => element.type === "input").map((_, i) => i.toString())\<close>:
  the index is the one in the filtered array.\<close>

definition availableRefs :: "EditMenuElement list \<Rightarrow> string list" where
  "availableRefs elements = map toString [0 ..< length (filter isInput elements)]"

text \<open>The addresses of the leaves of the element at \<open>index\<close>: none unless it is a group.\<close>

fun groupRefs :: "nat \<Rightarrow> EditMenuElement \<Rightarrow> string list" where
  "groupRefs index (Group l es) =
     map (\<lambda>subindex. toString index @ ''_'' @ toString subindex) [0 ..< length es]"
| "groupRefs index e = []"

definition groupedRefs :: "EditMenuElement list \<Rightarrow> string list" where
  "groupedRefs elements =
     concat (map (\<lambda>index. groupRefs index (elements ! index)) [0 ..< length elements])"

text \<open>The comparator handed to \<^verbatim>\<open>sort\<close>. The message it writes to the console for an
  address that does not parse is left out.\<close>

definition compareRefs :: "string \<Rightarrow> string \<Rightarrow> int" where
  "compareRefs a b =
     (case (parseRef a, parseRef b) of
        (Some aIndices, Some bIndices) \<Rightarrow>
          (case (groupIndex aIndices, groupIndex bIndices) of
             (None, None) \<Rightarrow> itemIndex aIndices - itemIndex bIndices
           | (None, Some bg) \<Rightarrow> itemIndex aIndices - bg
           | (Some ag, None) \<Rightarrow> ag - itemIndex bIndices
           | (Some ag, Some bg) \<Rightarrow> 0)
      | _ \<Rightarrow> 0)"

text \<open>
  \<^verbatim>\<open>Array.prototype.sort\<close> is stable; it is modelled by a stable insertion sort, which
  gives the order of every stable sort when the comparator is a consistent ordering of
  the elements.
\<close>

fun insertSorted :: "('a \<Rightarrow> 'a \<Rightarrow> int) \<Rightarrow> 'a \<Rightarrow> 'a list \<Rightarrow> 'a list" where
  "insertSorted cmp a [] = [a]"
| "insertSorted cmp a (b # bs) =
     (if cmp a b \<le> 0 then a # b # bs else b # insertSorted cmp a bs)"

definition sortBy :: "('a \<Rightarrow> 'a \<Rightarrow> int) \<Rightarrow> 'a list \<Rightarrow> 'a list" where
  "sortBy cmp xs = foldr (insertSorted cmp) xs []"

definition allRefs :: "EditMenuElement list \<Rightarrow> string list" where
  "allRefs elements = sortBy compareRefs (availableRefs elements @ groupedRefs elements)"

text \<open>The final loop over \<open>refs\<close>, with \<open>rest\<close> the part not yet visited.\<close>

fun scanRefs :: "string \<Rightarrow> string list \<Rightarrow> string list \<Rightarrow> string option" where
  "scanRefs ref refs [] = None"
| "scanRefs ref refs (r # rest) =
     (if r = ref
      then (case rest of n # _ \<Rightarrow> Some n
            | [] \<Rightarrow> (case refs of first # _ \<Rightarrow> Some first | [] \<Rightarrow> None))
      else scanRefs ref refs rest)"

definition getNextInputRef :: "EditMenuElement list \<Rightarrow> string \<Rightarrow> string option" where
  "getNextInputRef elements ref =
     (case parseRef ref of
        None \<Rightarrow> None
      | Some inputIndices \<Rightarrow> scanRefs ref (allRefs elements) (allRefs elements))"

section \<open>Notions used in the statements and proofs\<close>

fun isObject :: "Cell \<Rightarrow> bool" where
  "isObject (CObj cell) = True"
| "isObject c = False"


text \<open>Example cells.\<close>

definition seat :: "string \<Rightarrow> Cell" where
  "seat n = CObj \<lparr>name_of = JStr n, type_of = JStr ''seat'', styleOverride_of = JUndefined\<rparr>"

text \<open>The regions a release at the position of \<open>event\<close> clicks: those that contain it when
  it is the anchor of the drag, none when it is not.\<close>

definition clickedRegions :: "MouseEvent \<Rightarrow> ('ref, 'l) CollisionManager \<Rightarrow> 'ref Collision list" where
  "clickedRegions event s =
     (if (offsetX event, offsetY event) = drag_start s
      then filter (contained (offsetX event) (offsetY event)) (collisions s) else [])"

text \<open>The region of the hit-test example and a manager that holds it, with one listener of
  each kind.\<close>

definition region :: "string Collision" where
  "region = \<lparr>col_x = 10, col_y = 10, col_width = 20, col_height = 10, reference = Some ''0''\<rparr>"

definition manager :: "(string, string) CollisionManager" where
  "manager =
     registerCollisions [region]
       (addEventListener DragEnd ''onDragEnd''
         (addEventListener Drag ''onDrag''
           (addEventListener Hover ''onHover''
             (addEventListener Click ''onClick'' newCollisionManager))))"

definition at :: "int \<Rightarrow> int \<Rightarrow> MouseEvent" where
  "at px py = \<lparr>button = 0, offsetX = px, offsetY = py\<rparr>"

text \<open>The input elements come first: no top-level input element follows an element of
  another type. The position of an input element is then its rank among the input
  elements.\<close>

definition inputsFirst :: "EditMenuElement list \<Rightarrow> bool" where
  "inputsFirst elements = list_all (\<lambda>e. \<not> isInput e) (dropWhile isInput elements)"

text \<open>The canonical order in the specification's words: the addresses of the top-level
  input elements, each addressed by its position in the full element list, in ascending
  position order, followed by the addresses of the leaves of the groups, ordered by
  group index and then item index.\<close>

definition topLevelRefs :: "EditMenuElement list \<Rightarrow> string list" where
  "topLevelRefs elements =
     map toString (filter (\<lambda>p. isInput (elements ! p)) [0 ..< length elements])"

definition leafRefs :: "EditMenuElement list \<Rightarrow> string list" where
  "leafRefs elements =
     concat (map (\<lambda>g. case elements ! g of
                         Group l es \<Rightarrow> map (\<lambda>n. toString g @ ''_'' @ toString n) [0 ..< length es]
                       | _ \<Rightarrow> [])
               [0 ..< length elements])"

definition canonicalRefs :: "EditMenuElement list \<Rightarrow> string list" where
  "canonicalRefs elements = topLevelRefs elements @ leafRefs elements"

text \<open>A tree with its input elements first: two inputs, then a group of two input leaves.\<close>

definition menu :: "EditMenuElement list" where
  "menu = [Input ''Text'' ''text'', Input ''Size'' ''textSize'',
           Group ''Border'' [Input ''Color'' ''borderColor'', Input ''Width'' ''borderWidth'']]"

text \<open>The tree of the navigation example: inputs at positions 0 and 2, at position 1 a
  group of two input leaves.\<close>

definition exampleMenu :: "EditMenuElement list" where
  "exampleMenu = [Input ''Text'' ''text'',
                  Group ''Border'' [Input ''Color'' ''borderColor'', Input ''Width'' ''borderWidth''],
                  Input ''Size'' ''textSize'']"

text \<open>A value, or a cell, that \<^verbatim>\<open>deepClone\<close> gives back as it is.\<close>

definition stable :: "jsval \<Rightarrow> bool" where
  "stable v = (deepClone v = Inr v)"

definition stableCell :: "Cell \<Rightarrow> bool" where
  "stableCell c = (deepCloneCell c = Inr c)"

text \<open>
  A commit call that tells the truth about the model \<open>cs\<close> it is made on: the old
  values it passes are the values its targets hold, the batched calls pass arrays as
  long as the index array, and the values it hands over to be logged are given back
  unchanged by \<^verbatim>\<open>deepClone\<close> (a new cell of \<^verbatim>\<open>swapCells\<close>, which is cloned into the model
  too, only has to be defined).
\<close>

fun validCommit :: "call \<Rightarrow> Cell list \<Rightarrow> bool" where
  "validCommit (CallSwapCell index from to) cs =
     (from = cellAt cs index \<and> stableCell from \<and> stableCell to)"
| "validCommit (CallSwapCells index from to) cs =
     (length from = length index \<and> length to = length index
      \<and> list_all (\<lambda>(k, f). f = cellAt cs k \<and> stableCell f) (zip index from)
      \<and> list_all (\<lambda>t. t \<noteq> CUndefined) to)"
| "validCommit (CallChangeAttribute index attr from to) cs =
     (case cellAt cs index of
        CObj cell \<Rightarrow> from = getAttr attr cell \<and> stable from \<and> stable to
      | _ \<Rightarrow> False)"
| "validCommit (CallChangeAttributes index attr from to) cs =
     (length from = length index \<and> length to = length index
      \<and> list_all (\<lambda>(k, f). case cellAt cs k of
                                CObj cell \<Rightarrow> f = getAttr attr cell \<and> stable f
                              | _ \<Rightarrow> False) (zip index from)
      \<and> list_all stable to)"
| "validCommit Undo cs = False"
| "validCommit Redo cs = False"

text \<open>Every call of the sequence is such a commit on the model the calls before it leave.\<close>

fun validCommits :: "call list \<Rightarrow> MapLayoutHistory \<Rightarrow> bool" where
  "validCommits [] s = True"
| "validCommits (c # cs) s = (validCommit c (cells s) \<and> validCommits cs (snd (perform c s)))"

text \<open>Every call of the sequence completes: none throws.\<close>

fun allComplete :: "call list \<Rightarrow> MapLayoutHistory \<Rightarrow> bool" where
  "allComplete [] s = True"
| "allComplete (c # cs) s = (fst (perform c s) = None \<and> allComplete cs (snd (perform c s)))"

text \<open>
  An entry \<open>e\<close> leads from the cells \<open>c\<close> to the cells \<open>c'\<close>: wherever it stands in the
  log, \<^verbatim>\<open>redo\<close> at its position turns \<open>c\<close> into \<open>c'\<close> and \<^verbatim>\<open>undo\<close> just after it turns \<open>c'\<close>
  into \<open>c\<close>, silently.
\<close>

definition leads :: "MapLayoutHistoryEntry \<Rightarrow> Cell list \<Rightarrow> Cell list \<Rightarrow> bool" where
  "leads e c c' =
     (\<forall>h1 h2 con.
        undo \<lparr>cells = c', history = h1 @ e # h2, i = int (length h1) + 1, console = con\<rparr>
          = (None, \<lparr>cells = c, history = h1 @ e # h2, i = int (length h1), console = con\<rparr>)
        \<and> redo \<lparr>cells = c, history = h1 @ e # h2, i = int (length h1), console = con\<rparr>
          = (None, \<lparr>cells = c', history = h1 @ e # h2, i = int (length h1) + 1, console = con\<rparr>))"

text \<open>A path of entries, each with the cells it leads to.\<close>

fun path :: "Cell list \<Rightarrow> (MapLayoutHistoryEntry \<times> Cell list) list \<Rightarrow> bool" where
  "path c [] = True"
| "path c ((e, c') # rest) = (leads e c c' \<and> path c' rest)"

definition pathEnd :: "Cell list \<Rightarrow> (MapLayoutHistoryEntry \<times> Cell list) list \<Rightarrow> Cell list" where
  "pathEnd c steps = (if steps = [] then c else snd (last steps))"

text \<open>A model of three slots and four commits on it, one of each kind, each made with the
  values the model holds.\<close>

definition floor3 :: "Cell list" where
  "floor3 = [seat ''A'', seat ''B'', CNull]"

definition edits :: "call list" where
  "edits =
     [CallChangeAttribute 0 name (JStr ''A'') (JStr ''A1''),
      CallSwapCell 2 CNull (seat ''C''),
      CallChangeAttributes [0, 1] type [JStr ''seat'', JStr ''seat''] [JStr ''aisle'', JStr ''wall''],
      CallSwapCells [1, 2]
        [CObj \<lparr>name_of = JStr ''B'', type_of = JStr ''wall'', styleOverride_of = JUndefined\<rparr>,
         seat ''C'']
        [CNull, seat ''D'']]"

text \<open>A seat that has no name yet.\<close>

definition unnamedSeat :: Cell where
  "unnamedSeat = CObj \<lparr>name_of = JUndefined, type_of = JStr ''seat'', styleOverride_of = JUndefined\<rparr>"




section \<open>Properties of the history engine\<close>

lemmas history_defs =
  undo_def redo_def swapCell_def swapCells_def changeAttribute_def changeAttributes_def
  addHistoryEntry_def newMapLayoutHistory_def cellAt_def setCell_def entryAt_def
  console_error_def deepClone_def deepCloneArr_def deepCloneCells_def clonePureCell_def seat_def

lemma undoChangeAttributes_keeps [simp]:
  "history (undoChangeAttributes attr index was s) = history s"
  "i (undoChangeAttributes attr index was s) = i s"
  by (induction attr index was s rule: undoChangeAttributes.induct)
     (auto simp: console_error_def Let_def split: Cell.splits)


subsection \<open>Attribute changes on a slot that holds no cell\<close>

text \<open>
  C4 (as amended). \<^verbatim>\<open>changeAttribute(index, key, old, new)\<close> with \<open>index\<close> at an empty
  (\<^verbatim>\<open>null\<close>) or out-of-range slot throws a TypeError; the model, the log, the cursor and
  the console are left as they were: nothing is mutated, nothing is reported, no entry
  is appended.
\<close>

theorem changeAttribute_empty_slot:
  "cellAt (cells s) index = CNull \<or> cellAt (cells s) index = CUndefined \<Longrightarrow>
   changeAttribute index attr from to s = (Some TypeError, s)"
  by (auto simp: changeAttribute_def)

theorem changeAttribute_empty_slot_witness:
  "cellAt (cells (newMapLayoutHistory [seat ''A1'', CNull])) 1 = CNull \<and>
   changeAttribute 1 name (JStr ''A2'') (JStr ''B2'') (newMapLayoutHistory [seat ''A1'', CNull])
     = (Some TypeError, newMapLayoutHistory [seat ''A1'', CNull])"
  using changeAttribute_empty_slot
    [of "newMapLayoutHistory [seat ''A1'', CNull]" 1 name "JStr ''A2''" "JStr ''B2''"]
  by (simp add: newMapLayoutHistory_def cellAt_def)

text \<open>The call is not a reported no-op: it throws.\<close>

theorem changeAttribute_empty_slot_throws:
  "fst (changeAttribute 1 name (JStr ''A2'') (JStr ''B2'')
          (newMapLayoutHistory [seat ''A1'', CNull])) = Some TypeError"
  by (simp add: changeAttribute_def newMapLayoutHistory_def cellAt_def)

subsection \<open>Batched attribute changes with an invalid target\<close>

lemma isObject_update:
  "isObject (cellAt cs k) \<Longrightarrow> isObject (cellAt (cs[k := CObj c]) j) = isObject (cellAt cs j)"
  by (cases "j = k") (auto simp: cellAt_def split: if_splits)

lemma changeAttributesLoop_all:
  "list_all (\<lambda>k. isObject (cellAt cs k)) index \<Longrightarrow>
   fst (changeAttributesLoop attr index to cs) = None"
proof (induction index arbitrary: to cs)
  case Nil
  then show ?case by simp
next
  case (Cons k ks)
  then obtain cell where c: "cellAt cs k = CObj cell"
    by (cases "cellAt cs k") auto
  have "list_all (\<lambda>j. isObject (cellAt (cs[k := CObj (setAttr attr (headVal to) cell)]) j)) ks"
    using Cons.prems c by (simp add: isObject_update)
  from Cons.IH[OF this] show ?case using c by simp
qed





subsection \<open>Exhausted history\<close>




text \<open>
  What \<^verbatim>\<open>undo\<close> at cursor 0 writes need not be in the model already. A batched rename is
  undone, slot 1 is emptied by a swap that is undone as well, and the batched rename is
  undone once more and redone: the redo stops at the empty slot with slot 0 renamed and
  the cursor still 0. A further \<^verbatim>\<open>undo\<close> at cursor 0 then changes the name in slot 0.
\<close>

lemma undo_at_start_rewrites:
  "run [CallChangeAttributes [0, 1] name [JStr ''A'', JStr ''B''] [JStr ''X'', JStr ''Y''], Undo,
        CallSwapCell 1 CNull CNull, Undo, Undo, Redo]
       (newMapLayoutHistory [seat ''A'', seat ''B''])
     = \<lparr>cells = [seat ''X'', CNull],
        history = [ChangeAttributes [0, 1] name [JStr ''A'', JStr ''B''] [JStr ''X'', JStr ''Y''],
                   SwappedCell 1 CNull CNull],
        i = 0, console = []\<rparr>
   \<and> cells (snd (undo (run [CallChangeAttributes [0, 1] name [JStr ''A'', JStr ''B'']
                               [JStr ''X'', JStr ''Y''], Undo,
                             CallSwapCell 1 CNull CNull, Undo, Undo, Redo]
                            (newMapLayoutHistory [seat ''A'', seat ''B'']))))
       = [seat ''A'', CNull]"
  by (simp add: history_defs)

subsection \<open>Truncation of the log by a new commit\<close>

text \<open>
  C2. Branch truncation: a commit made with the cursor \<open>i\<close> below the log length is to
  truncate the log to exactly \<open>i\<close> entries first, so that no discarded entry is ever
  written into the model again. \<^verbatim>\<open>addHistoryEntry\<close> truncates to \<open>i + 1\<close> entries. After the commits
  \<open>A \<rightarrow> B\<close> and \<open>B \<rightarrow> C\<close>, one undo and the commit \<open>B \<rightarrow> D\<close>, the log still holds the undone
  entry \<open>B \<rightarrow> C\<close> and has three entries with the cursor at 3; two undos and a redo then
  put \<open>C\<close> into the model.
\<close>

theorem truncation_keeps_undone_entry:
  "run [CallSwapCell 0 (seat ''A'') (seat ''B''), CallSwapCell 0 (seat ''B'') (seat ''C''), Undo,
        CallSwapCell 0 (seat ''B'') (seat ''D'')]
       (newMapLayoutHistory [seat ''A''])
     = \<lparr>cells = [seat ''D''],
        history = [SwappedCell 0 (seat ''A'') (seat ''B''), SwappedCell 0 (seat ''B'') (seat ''C''),
                   SwappedCell 0 (seat ''B'') (seat ''D'')],
        i = 3, console = []\<rparr>
   \<and> cells (run [CallSwapCell 0 (seat ''A'') (seat ''B''),
                 CallSwapCell 0 (seat ''B'') (seat ''C''), Undo,
                 CallSwapCell 0 (seat ''B'') (seat ''D''), Undo, Undo, Redo]
                (newMapLayoutHistory [seat ''A'']))
       = [seat ''C'']"
  by (simp add: history_defs)

subsection \<open>The cursor stays within the log\<close>

lemma undo_history [simp]: "history (snd (undo s)) = history s"
  by (auto simp: undo_def Let_def console_error_def
           split: option.splits MapLayoutHistoryEntry.splits Cell.splits)


lemma redo_history [simp]: "history (snd (redo s)) = history s"
  by (auto simp: redo_def Let_def console_error_def
           split: option.splits MapLayoutHistoryEntry.splits Cell.splits prod.splits
             loop_exit.splits)






lemma addHistoryEntry_cursor:
  "addHistoryEntry e s = (None, s') \<Longrightarrow> i s' = int (length (history s'))"
  by (auto simp: addHistoryEntry_def Let_def split: sum.splits if_splits)













subsection \<open>Undo and redo are inverse\<close>

lemma entryAt_middle [simp]: "entryAt (h1 @ e # h2) (int (length h1)) = Some e"
  by (simp add: entryAt_def)

lemma stableCell_defined: "stableCell c \<Longrightarrow> c \<noteq> CUndefined"
  by (auto simp: stableCell_def)

lemma stable_defined: "stable v \<Longrightarrow> v \<noteq> JUndefined"
  by (auto simp: stable_def deepClone_def)

lemma stable_clone: "stable v \<Longrightarrow> cloneVal v = v"
  by (auto simp: stable_def deepClone_def split: if_splits)

lemma stableCell_elem: "stableCell c \<Longrightarrow> cloneCellElem c = c"
  by (cases c) (auto simp: stableCell_def)

lemma cellAt_defined: "cellAt cs k \<noteq> CUndefined \<Longrightarrow> k < length cs"
  by (auto simp: cellAt_def split: if_splits)

lemma setAttr_back: "setAttr attr (getAttr attr cell) (setAttr attr v cell) = cell"
  by (cases attr) simp_all

lemma setAttr_twice: "setAttr attr v (setAttr attr w cell) = setAttr attr v cell"
  by (cases attr) simp_all

lemma leads_swappedCell:
  assumes "from = cellAt c k" "stableCell from"
  shows "leads (SwappedCell k from to) c (setCell c k to)"
proof -
  have k: "k < length c" using assms stableCell_defined cellAt_defined by metis
  then have "setCell (setCell c k to) k from = c"
    using assms(1) by (simp add: setCell_def cellAt_def)
  then show ?thesis
    by (simp add: leads_def undo_def redo_def Let_def)
qed

lemma leads_changeAttribute:
  assumes "cellAt c k = CObj cell" "from = getAttr attr cell"
  shows "leads (ChangeAttribute k attr from to) c (c[k := CObj (setAttr attr to cell)])"
proof -
  have k: "k < length c" using assms(1) cellAt_defined by (metis Cell.distinct(3))
  then have 1: "cellAt (c[k := CObj (setAttr attr to cell)]) k = CObj (setAttr attr to cell)"
    by (simp add: cellAt_def)
  have 2: "c[k := CObj cell] = c" using assms(1) k by (simp add: cellAt_def list_update_same_conv)
  show ?thesis
    using 1 2 assms by (simp add: leads_def undo_def redo_def Let_def setAttr_back)
qed

lemma swapCellsLoop_writeCells:
  "length to = length ks \<Longrightarrow> list_all (\<lambda>t. t \<noteq> CUndefined) to \<Longrightarrow>
   swapCellsLoop ks to c = (None, writeCells ks (deepCloneCells to) c)"
proof (induction ks arbitrary: to c)
  case Nil
  then show ?case by simp
next
  case (Cons k ks)
  then obtain t ts where to: "to = t # ts" by (cases to) auto
  then have "deepCloneCell t = Inr (cloneCellElem t)" using Cons.prems by (cases t) auto
  then show ?case using Cons to by (simp add: deepCloneCells_def)
qed

lemma setCell_inside: "k < length c \<Longrightarrow> setCell c k v = c[k := v]"
  by (simp add: setCell_def)

lemma writeCells_inside:
  "\<forall>k \<in> set ks. k < length c \<Longrightarrow>
   length (writeCells ks vs c) = length c
   \<and> (\<forall>j. j \<notin> set ks \<longrightarrow> writeCells ks vs c ! j = c ! j)"
proof (induction ks arbitrary: vs c)
  case Nil
  then show ?case by simp
next
  case (Cons k ks)
  let ?c = "c[k := headCell vs]"
  have k: "k < length c" using Cons.prems by simp
  have w: "writeCells (k # ks) vs c = writeCells ks (tl vs) ?c"
    using k by (simp add: setCell_inside)
  have "\<forall>j \<in> set ks. j < length ?c"
    using Cons.prems by simp
  from Cons.IH[OF this, of "tl vs"]
  have l: "length (writeCells ks (tl vs) ?c) = length ?c"
    and n: "\<And>j. j \<notin> set ks \<Longrightarrow> writeCells ks (tl vs) ?c ! j = ?c ! j"
    by blast+
  have "length (writeCells (k # ks) vs c) = length c"
    unfolding w l by simp
  moreover have "writeCells (k # ks) vs c ! j = c ! j" if "j \<notin> set (k # ks)" for j
  proof -
    from that have "j \<notin> set ks" "j \<noteq> k" by auto
    then show ?thesis unfolding w using n[of j] by simp
  qed
  ultimately show ?case by blast
qed

lemma writeCells_restore:
  "length from = length ks \<Longrightarrow> length cs = length c \<Longrightarrow>
   \<forall>p < length ks. ks ! p < length c \<and> from ! p = c ! (ks ! p) \<Longrightarrow>
   \<forall>j < length c. j \<notin> set ks \<longrightarrow> cs ! j = c ! j \<Longrightarrow>
   writeCells ks from cs = c"
proof (induction ks arbitrary: "from" cs)
  case Nil
  then show ?case by (auto intro: nth_equalityI)
next
  case (Cons k ks)
  then obtain f fs where fr: "from = f # fs" by (cases "from") auto
  have k: "k < length c" "f = c ! k" using Cons.prems(3) fr by auto
  let ?cs = "setCell cs k f"
  have cs: "?cs = cs[k := c ! k]" using k Cons.prems(2) by (simp add: setCell_def)
  have 1: "length fs = length ks" using Cons.prems(1) fr by simp
  have 2: "length ?cs = length c" using cs Cons.prems(2) by simp
  have 3: "\<forall>p < length ks. ks ! p < length c \<and> fs ! p = c ! (ks ! p)"
    using Cons.prems(3) fr by auto
  have 4: "\<forall>j < length c. j \<notin> set ks \<longrightarrow> ?cs ! j = c ! j"
  proof (intro allI impI)
    fix j assume j: "j < length c" "j \<notin> set ks"
    show "?cs ! j = c ! j"
    proof (cases "j = k")
      case True
      then show ?thesis using j Cons.prems(2) cs by simp
    next
      case False
      then have "cs ! j = c ! j" using Cons.prems(4) j by simp
      then show ?thesis using False cs by simp
    qed
  qed
  from Cons.IH[OF 1 2 3 4] show ?case using fr by simp
qed

lemma truthful_swaps:
  assumes "length from = length ks"
    "list_all (\<lambda>(k, f). f = cellAt c k \<and> stableCell f) (zip ks from)"
  shows "\<forall>p < length ks. ks ! p < length c \<and> from ! p = c ! (ks ! p)"
    and "deepCloneCells from = from"
proof -
  have z: "\<And>p. p < length ks \<Longrightarrow> from ! p = cellAt c (ks ! p) \<and> stableCell (from ! p)"
    using assms by (auto simp: list_all_length)
  show "\<forall>p < length ks. ks ! p < length c \<and> from ! p = c ! (ks ! p)"
  proof (intro allI impI)
    fix p assume p: "p < length ks"
    from z[OF p] have "cellAt c (ks ! p) \<noteq> CUndefined" using stableCell_defined by metis
    then have "ks ! p < length c" by (rule cellAt_defined)
    then show "ks ! p < length c \<and> from ! p = c ! (ks ! p)" using z[OF p] by (simp add: cellAt_def)
  qed
  have "\<forall>f \<in> set from. stableCell f"
    using z assms(1) by (metis in_set_conv_nth)
  then show "deepCloneCells from = from"
    by (simp add: deepCloneCells_def map_idI stableCell_elem)
qed

lemma leads_swappedCells:
  assumes "length from = length ks" "length to = length ks"
    "list_all (\<lambda>(k, f). f = cellAt c k \<and> stableCell f) (zip ks from)"
  shows "leads (SwappedCells ks (deepCloneCells from) (deepCloneCells to)) c
           (writeCells ks (deepCloneCells to) c)"
proof -
  let ?c' = "writeCells ks (deepCloneCells to) c"
  note t = truthful_swaps[OF assms(1,3)]
  have inside: "\<forall>k \<in> set ks. k < length c" using t(1) by (metis in_set_conv_nth)
  from writeCells_inside[OF inside, of "deepCloneCells to"]
  have "length ?c' = length c" "\<forall>j < length c. j \<notin> set ks \<longrightarrow> ?c' ! j = c ! j" by auto
  from writeCells_restore[OF assms(1) this(1) t(1) this(2)]
  have "writeCells ks (deepCloneCells from) ?c' = c" by (simp add: t(2))
  then show ?thesis
    by (simp add: leads_def undo_def redo_def Let_def)
qed

lemma stable_arr: "list_all stable vs \<Longrightarrow> deepCloneArr vs = vs"
  by (simp add: deepCloneArr_def list_all_iff map_idI stable_clone stable_defined)

text \<open>The loops of the commit and of redo agree when every target holds a cell.\<close>

lemma redoChangeAttributes_all:
  "list_all (\<lambda>k. isObject (cellAt c k)) ks \<Longrightarrow>
   redoChangeAttributes attr ks vs c = (Completed, snd (changeAttributesLoop attr ks vs c))"
proof (induction ks arbitrary: vs c)
  case Nil
  then show ?case by simp
next
  case (Cons k ks)
  then obtain cell where c: "cellAt c k = CObj cell"
    by (cases "cellAt c k") auto
  have "list_all (\<lambda>j. isObject (cellAt (c[k := CObj (setAttr attr (headVal vs) cell)]) j)) ks"
    using Cons.prems c by (simp add: isObject_update)
  from Cons.IH[OF this] show ?case using c by simp
qed

text \<open>What the commit loop leaves: the same slots, each target with only \<open>attr\<close> changed.\<close>

lemma changeAttributesLoop_shape:
  "list_all (\<lambda>k. isObject (cellAt c k)) ks \<Longrightarrow>
   length (snd (changeAttributesLoop attr ks vs c)) = length c
   \<and> (\<forall>j < length c.
        (j \<notin> set ks \<longrightarrow> snd (changeAttributesLoop attr ks vs c) ! j = c ! j)
        \<and> (j \<in> set ks \<longrightarrow> (\<exists>cell v. c ! j = CObj cell
              \<and> snd (changeAttributesLoop attr ks vs c) ! j = CObj (setAttr attr v cell))))"
proof (induction ks arbitrary: vs c)
  case Nil
  then show ?case by simp
next
  case (Cons k ks)
  then obtain cell where c: "cellAt c k = CObj cell"
    by (cases "cellAt c k") auto
  then have k: "k < length c" "c ! k = CObj cell"
    by (auto simp: cellAt_def split: if_splits)
  let ?c1 = "c[k := CObj (setAttr attr (headVal vs) cell)]"
  let ?r = "snd (changeAttributesLoop attr ks (tl vs) ?c1)"
  have r: "snd (changeAttributesLoop attr (k # ks) vs c) = ?r" using c by simp
  have "list_all (\<lambda>j. isObject (cellAt ?c1 j)) ks"
    using Cons.prems c by (simp add: isObject_update)
  from Cons.IH[OF this, of "tl vs"]
  have len: "length ?r = length ?c1"
    and out: "\<And>j. j < length c \<Longrightarrow> j \<notin> set ks \<Longrightarrow> ?r ! j = ?c1 ! j"
    and inn: "\<And>j. j < length c \<Longrightarrow> j \<in> set ks \<Longrightarrow>
                \<exists>cell v. ?c1 ! j = CObj cell \<and> ?r ! j = CObj (setAttr attr v cell)"
    by auto
  have "length ?r = length c" using len by simp
  moreover have "?r ! j = c ! j" if "j < length c" "j \<notin> set (k # ks)" for j
    using out[of j] that by simp
  moreover have "\<exists>cell v. c ! j = CObj cell \<and> ?r ! j = CObj (setAttr attr v cell)"
    if j: "j < length c" "j \<in> set (k # ks)" for j
  proof (cases "j \<in> set ks")
    case True
    from inn[OF j(1) True] obtain cell' v where
      cv: "?c1 ! j = CObj cell'" "?r ! j = CObj (setAttr attr v cell')" by blast
    show ?thesis
    proof (cases "j = k")
      case True
      then have "cell' = setAttr attr (headVal vs) cell" using cv(1) k by simp
      then show ?thesis using cv(2) k True by (auto simp: setAttr_twice)
    next
      case False
      then show ?thesis using cv by auto
    qed
  next
    case False
    then have "j = k" using j(2) by simp
    then show ?thesis using out[OF j(1) False] k by auto
  qed
  ultimately show ?case unfolding r by blast
qed

text \<open>The loop of undo, given the old values of the targets, puts the old cells back.\<close>

lemma undoChangeAttributes_restore:
  "length from = length ks \<Longrightarrow> length cs = length c \<Longrightarrow>
   \<forall>p < length ks. \<exists>cell. ks ! p < length c \<and> c ! (ks ! p) = CObj cell
       \<and> from ! p = getAttr attr cell \<and> from ! p \<noteq> JUndefined \<Longrightarrow>
   \<forall>j < length c.
       (j \<notin> set ks \<longrightarrow> cs ! j = c ! j)
       \<and> (j \<in> set ks \<longrightarrow> (\<exists>cell v. c ! j = CObj cell \<and> cs ! j = CObj (setAttr attr v cell))) \<Longrightarrow>
   cells s = cs \<Longrightarrow>
   undoChangeAttributes attr ks from s = s\<lparr>cells := c\<rparr>"
proof (induction ks arbitrary: "from" cs s)
  case Nil
  then have "cs = c" by (auto intro: nth_equalityI)
  then show ?case using Nil by simp
next
  case (Cons k ks)
  then obtain f fs where fr: "from = f # fs" by (cases "from") auto
  from Cons.prems(3) fr obtain cell where
    k: "k < length c" "c ! k = CObj cell" "f = getAttr attr cell" "f \<noteq> JUndefined"
    by fastforce
  from Cons.prems(4) k obtain v where v: "cs ! k = CObj (setAttr attr v cell)"
    by fastforce
  let ?cs = "cs[k := CObj cell]"
  let ?s = "s\<lparr>cells := ?cs\<rparr>"
  have step: "undoChangeAttributes attr (k # ks) from s = undoChangeAttributes attr ks fs ?s"
    using fr k v Cons.prems(2,5) by (simp add: cellAt_def setAttr_back)
  have 1: "length fs = length ks" using Cons.prems(1) fr by simp
  have 2: "length ?cs = length c" using Cons.prems(2) by simp
  have 3: "\<forall>p < length ks. \<exists>cell. ks ! p < length c \<and> c ! (ks ! p) = CObj cell
       \<and> fs ! p = getAttr attr cell \<and> fs ! p \<noteq> JUndefined"
    using Cons.prems(3) fr by auto
  have 4: "\<forall>j < length c.
       (j \<notin> set ks \<longrightarrow> ?cs ! j = c ! j)
       \<and> (j \<in> set ks \<longrightarrow> (\<exists>cell v. c ! j = CObj cell \<and> ?cs ! j = CObj (setAttr attr v cell)))"
  proof (intro allI impI conjI)
    fix j assume j: "j < length c" "j \<notin> set ks"
    show "?cs ! j = c ! j"
    proof (cases "j = k")
      case True
      then show ?thesis using k Cons.prems(2) by simp
    next
      case False
      then show ?thesis using Cons.prems(4) j by simp
    qed
  next
    fix j assume j: "j < length c" "j \<in> set ks"
    show "\<exists>cell v. c ! j = CObj cell \<and> ?cs ! j = CObj (setAttr attr v cell)"
    proof (cases "j = k")
      case True
      have "cell = setAttr attr (getAttr attr cell) cell" by (cases attr) simp_all
      then show ?thesis using True k Cons.prems(2) by (metis nth_list_update_eq)
    next
      case False
      then show ?thesis using Cons.prems(4) j by simp
    qed
  qed
  have 5: "cells ?s = ?cs" by simp
  from Cons.IH[OF 1 2 3 4 5] show ?case unfolding step by simp
qed

lemma truthful_changes:
  assumes "length from = length ks"
    "list_all (\<lambda>(k, f). case cellAt c k of CObj cell \<Rightarrow> f = getAttr attr cell \<and> stable f
                          | _ \<Rightarrow> False) (zip ks from)"
  shows "\<forall>p < length ks. \<exists>cell. ks ! p < length c \<and> c ! (ks ! p) = CObj cell
       \<and> from ! p = getAttr attr cell \<and> from ! p \<noteq> JUndefined"
    and "list_all (\<lambda>k. isObject (cellAt c k)) ks"
    and "list_all stable from"
proof -
  have z: "\<exists>cell. cellAt c (ks ! p) = CObj cell \<and> from ! p = getAttr attr cell \<and> stable (from ! p)"
    if "p < length ks" for p
  proof -
    from assms that
    have "case cellAt c (ks ! p) of CObj cell \<Rightarrow> from ! p = getAttr attr cell \<and> stable (from ! p)
          | _ \<Rightarrow> False"
      by (simp add: list_all_length)
    then show ?thesis by (cases "cellAt c (ks ! p)") auto
  qed
  show "\<forall>p < length ks. \<exists>cell. ks ! p < length c \<and> c ! (ks ! p) = CObj cell
       \<and> from ! p = getAttr attr cell \<and> from ! p \<noteq> JUndefined"
  proof (intro allI impI)
    fix p assume p: "p < length ks"
    from z[OF p] obtain cell where
      "cellAt c (ks ! p) = CObj cell" "from ! p = getAttr attr cell" "stable (from ! p)" by blast
    then show "\<exists>cell. ks ! p < length c \<and> c ! (ks ! p) = CObj cell
       \<and> from ! p = getAttr attr cell \<and> from ! p \<noteq> JUndefined"
      by (auto simp: cellAt_def stable_defined split: if_splits)
  qed
  show "list_all (\<lambda>k. isObject (cellAt c k)) ks"
    unfolding list_all_length using z by fastforce
  show "list_all stable from"
    unfolding list_all_length using z assms(1) by fastforce
qed

lemma leads_changeAttributes:
  assumes "length from = length ks"
    "list_all (\<lambda>(k, f). case cellAt c k of CObj cell \<Rightarrow> f = getAttr attr cell \<and> stable f
                          | _ \<Rightarrow> False) (zip ks from)"
    "list_all stable to"
  shows "leads (ChangeAttributes ks attr (deepCloneArr from) (deepCloneArr to)) c
           (snd (changeAttributesLoop attr ks to c))"
proof -
  let ?c' = "snd (changeAttributesLoop attr ks to c)"
  note t = truthful_changes[OF assms(1,2)]
  from changeAttributesLoop_shape[OF t(2), of attr to]
  have len: "length ?c' = length c"
    and shape: "\<forall>j < length c.
        (j \<notin> set ks \<longrightarrow> ?c' ! j = c ! j)
        \<and> (j \<in> set ks \<longrightarrow> (\<exists>cell v. c ! j = CObj cell \<and> ?c' ! j = CObj (setAttr attr v cell)))"
    by blast+
  have u: "undoChangeAttributes attr ks from s = s\<lparr>cells := c\<rparr>" if "cells s = ?c'" for s
    using undoChangeAttributes_restore[OF assms(1) len t(1) shape that] .
  have r: "redoChangeAttributes attr ks to c = (Completed, ?c')"
    using t(2) by (rule redoChangeAttributes_all)
  show ?thesis
    by (simp add: leads_def undo_def redo_def Let_def stable_arr[OF t(3)] stable_arr[OF assms(3)] u r)
qed

lemma addHistoryEntry_at_end:
  assumes "i s = int (length (history s))" "cloneEntry e = Inr e'"
  shows "addHistoryEntry e s
           = (None, s\<lparr>history := history s @ [e'], i := int (length (history s)) + 1\<rparr>)"
  using assms by (simp add: addHistoryEntry_def)

lemma commit_leads:
  assumes v: "validCommit call (cells s)" and at_end: "i s = int (length (history s))"
  shows "\<exists>e c'. perform call s
            = (None, s\<lparr>cells := c', history := history s @ [e], i := int (length (history s)) + 1\<rparr>)
          \<and> leads e (cells s) c'"
proof (cases call)
  case Undo
  then show ?thesis using v by simp
next
  case Redo
  then show ?thesis using v by simp
next
  case (CallSwapCell k "from" to)
  then have f: "from = cellAt (cells s) k" "stableCell from" "stableCell to" using v by auto
  let ?s = "s\<lparr>cells := setCell (cells s) k to\<rparr>"
  have "cloneEntry (SwappedCell k from to) = Inr (SwappedCell k from to)"
    using f by (simp add: stableCell_def)
  from addHistoryEntry_at_end[of ?s, OF _ this] at_end
  have "perform call s = (None, s\<lparr>cells := setCell (cells s) k to,
          history := history s @ [SwappedCell k from to], i := int (length (history s)) + 1\<rparr>)"
    using CallSwapCell by (simp add: swapCell_def)
  then show ?thesis using leads_swappedCell[OF f(1,2)] by blast
next
  case (CallSwapCells ks "from" to)
  then have f: "length from = length ks" "length to = length ks"
    "list_all (\<lambda>(k, f). f = cellAt (cells s) k \<and> stableCell f) (zip ks from)"
    "list_all (\<lambda>t. t \<noteq> CUndefined) to" using v by auto
  let ?c' = "writeCells ks (deepCloneCells to) (cells s)"
  let ?e = "SwappedCells ks (deepCloneCells from) (deepCloneCells to)"
  have l: "swapCellsLoop ks to (cells s) = (None, ?c')"
    using f(2,4) by (rule swapCellsLoop_writeCells)
  have "cloneEntry (SwappedCells ks from to) = Inr ?e" by simp
  from addHistoryEntry_at_end[of "s\<lparr>cells := ?c'\<rparr>", OF _ this] at_end
  have "perform call s = (None, s\<lparr>cells := ?c', history := history s @ [?e],
          i := int (length (history s)) + 1\<rparr>)"
    using CallSwapCells l by (simp add: swapCells_def)
  then show ?thesis using leads_swappedCells[OF f(1,2,3)] by blast
next
  case (CallChangeAttribute k attr "from" to)
  then obtain cell where f: "cellAt (cells s) k = CObj cell" "from = getAttr attr cell"
    "stable from" "stable to" using v by (cases "cellAt (cells s) k") auto
  let ?c' = "(cells s)[k := CObj (setAttr attr to cell)]"
  have "cloneEntry (ChangeAttribute k attr from to) = Inr (ChangeAttribute k attr from to)"
    using f(3,4) by (simp add: stable_def)
  from addHistoryEntry_at_end[of "s\<lparr>cells := ?c'\<rparr>", OF _ this] at_end
  have "perform call s = (None, s\<lparr>cells := ?c',
          history := history s @ [ChangeAttribute k attr from to],
          i := int (length (history s)) + 1\<rparr>)"
    using CallChangeAttribute f(1) by (simp add: changeAttribute_def)
  then show ?thesis using leads_changeAttribute[OF f(1,2)] by blast
next
  case (CallChangeAttributes ks attr "from" to)
  then have f: "length from = length ks" "length to = length ks"
    "list_all (\<lambda>(k, f). case cellAt (cells s) k of
         CObj cell \<Rightarrow> f = getAttr attr cell \<and> stable f | _ \<Rightarrow> False) (zip ks from)"
    "list_all stable to" using v by auto
  let ?e = "ChangeAttributes ks attr (deepCloneArr from) (deepCloneArr to)"
  obtain r c' where l: "changeAttributesLoop attr ks to (cells s) = (r, c')"
    by (cases "changeAttributesLoop attr ks to (cells s)")
  have "fst (changeAttributesLoop attr ks to (cells s)) = None"
    using truthful_changes(2)[OF f(1,3)] by (rule changeAttributesLoop_all)
  then have r: "r = None" using l by simp
  have c': "snd (changeAttributesLoop attr ks to (cells s)) = c'" using l by simp
  have "cloneEntry (ChangeAttributes ks attr from to) = Inr ?e" by simp
  from addHistoryEntry_at_end[of "s\<lparr>cells := c'\<rparr>", OF _ this] at_end
  have "perform call s = (None, s\<lparr>cells := c', history := history s @ [?e],
          i := int (length (history s)) + 1\<rparr>)"
    using CallChangeAttributes l r by (simp add: changeAttributes_def)
  then show ?thesis using leads_changeAttributes[OF f(1,3,4)] unfolding c' by blast
qed

lemma pathEnd_Cons: "pathEnd c ((e, c') # rest) = pathEnd c' rest"
  by (simp add: pathEnd_def)

lemma pathEnd_snoc: "pathEnd c (steps @ [(e, c')]) = c'"
  by (simp add: pathEnd_def)

lemma path_snoc: "path c (steps @ [(e, c')]) \<longleftrightarrow> path c steps \<and> leads e (pathEnd c steps) c'"
proof (induction steps arbitrary: c)
  case Nil
  then show ?case by (simp add: pathEnd_def)
next
  case (Cons a steps)
  then show ?case by (cases a) (simp add: pathEnd_Cons)
qed

lemma commits_path:
  assumes "validCommits calls s" "path c0 steps"
    "s = \<lparr>cells = pathEnd c0 steps, history = map fst steps, i = int (length steps), console = con\<rparr>"
  shows "\<exists>steps'. path c0 steps' \<and> length steps' = length steps + length calls
          \<and> run calls s = \<lparr>cells = pathEnd c0 steps', history = map fst steps',
                             i = int (length steps'), console = con\<rparr>
          \<and> allComplete calls s"
  using assms
proof (induction calls arbitrary: s steps)
  case Nil
  then show ?case by auto
next
  case (Cons call calls)
  have v: "validCommit call (cells s)" and vs: "validCommits calls (snd (perform call s))"
    using Cons.prems(1) by auto
  have at_end: "i s = int (length (history s))" using Cons.prems(3) by simp
  from commit_leads[OF v at_end] obtain e c' where
    p: "perform call s = (None, s\<lparr>cells := c', history := history s @ [e],
          i := int (length (history s)) + 1\<rparr>)"
    and l: "leads e (cells s) c'" by blast
  let ?steps = "steps @ [(e, c')]"
  have 1: "path c0 ?steps" using Cons.prems(2,3) l by (simp add: path_snoc)
  have 2: "snd (perform call s) = \<lparr>cells = pathEnd c0 ?steps, history = map fst ?steps,
             i = int (length ?steps), console = con\<rparr>"
    using p Cons.prems(3) by (simp add: pathEnd_snoc)
  from Cons.IH[OF vs 1 2] obtain steps' where
    "path c0 steps'" "length steps' = length ?steps + length calls"
    "run calls (snd (perform call s)) = \<lparr>cells = pathEnd c0 steps', history = map fst steps',
                             i = int (length steps'), console = con\<rparr>"
    "allComplete calls (snd (perform call s))" by blast
  then show ?case using p by (intro exI[of _ steps']) simp
qed

lemma undo_path:
  "path c0 xs \<Longrightarrow>
   run (replicate (length xs) Undo)
     \<lparr>cells = pathEnd c0 xs, history = map fst xs @ h2, i = int (length xs), console = con\<rparr>
   = \<lparr>cells = c0, history = map fst xs @ h2, i = 0, console = con\<rparr>"
proof (induction xs arbitrary: h2 rule: rev_induct)
  case Nil
  then show ?case by (simp add: pathEnd_def)
next
  case (snoc x xs)
  obtain e c' where x: "x = (e, c')" by (cases x)
  from snoc.prems x have p: "path c0 xs" and l: "leads e (pathEnd c0 xs) c'"
    by (simp_all add: path_snoc)
  have "undo \<lparr>cells = c', history = map fst xs @ e # h2, i = int (length (map fst xs)) + 1,
               console = con\<rparr>
        = (None, \<lparr>cells = pathEnd c0 xs, history = map fst xs @ e # h2,
                   i = int (length (map fst xs)), console = con\<rparr>)"
    using l unfolding leads_def by blast
  then show ?case using snoc.IH[OF p, of "e # h2"] x
    by (simp add: pathEnd_snoc add.commute)
qed

lemma redo_path:
  "path c ys \<Longrightarrow>
   run (replicate (length ys) Redo)
     \<lparr>cells = c, history = h1 @ map fst ys, i = int (length h1), console = con\<rparr>
   = \<lparr>cells = pathEnd c ys, history = h1 @ map fst ys,
      i = int (length h1) + int (length ys), console = con\<rparr>"
proof (induction ys arbitrary: c h1)
  case Nil
  then show ?case by (simp add: pathEnd_def)
next
  case (Cons y ys)
  obtain e c' where y: "y = (e, c')" by (cases y)
  from Cons.prems y have p: "path c' ys" and l: "leads e c c'" by simp_all
  have "redo \<lparr>cells = c, history = h1 @ e # map fst ys, i = int (length h1), console = con\<rparr>
        = (None, \<lparr>cells = c', history = h1 @ e # map fst ys, i = int (length h1) + 1,
                   console = con\<rparr>)"
    using l unfolding leads_def by blast
  then show ?case using Cons.IH[OF p, of "h1 @ [e]"] y
    by (simp add: pathEnd_Cons add.commute add.left_commute)
qed

text \<open>
  C1 (as amended). Undo/redo inverse law: take any sequence of \<open>N\<close> commit calls
  (\<^verbatim>\<open>changeAttribute\<close>, \<^verbatim>\<open>changeAttributes\<close>, \<^verbatim>\<open>swapCell\<close>, \<^verbatim>\<open>swapCells\<close>) on a fresh
  history in which every call passes as old value(s) the value(s) its targets hold in
  the model when it is made, a batched call passes arrays as long as its index array,
  and the values passed are given back unchanged by \<^verbatim>\<open>deepClone\<close> (for the new cells of
  \<^verbatim>\<open>swapCells\<close>: are defined). Then every call completes, \<open>N\<close> calls of \<^verbatim>\<open>undo\<close> restore the
  cells to their exact state before the commits, with the cursor at 0 and nothing
  reported, and \<open>N\<close> calls of \<^verbatim>\<open>redo\<close> after them restore the exact cells that the \<open>N\<close>
  commits left, with the cursor at \<open>N\<close>.
\<close>

theorem undo_redo_inverse:
  assumes "validCommits calls (newMapLayoutHistory cells0)"
  shows "allComplete calls (newMapLayoutHistory cells0)
    \<and> cells (run (replicate (length calls) Undo) (run calls (newMapLayoutHistory cells0))) = cells0
    \<and> i (run (replicate (length calls) Undo) (run calls (newMapLayoutHistory cells0))) = 0
    \<and> console (run (replicate (length calls) Undo) (run calls (newMapLayoutHistory cells0))) = []
    \<and> cells (run (replicate (length calls) Redo)
          (run (replicate (length calls) Undo) (run calls (newMapLayoutHistory cells0))))
        = cells (run calls (newMapLayoutHistory cells0))
    \<and> i (run (replicate (length calls) Redo)
          (run (replicate (length calls) Undo) (run calls (newMapLayoutHistory cells0))))
        = int (length calls)
    \<and> console (run (replicate (length calls) Redo)
          (run (replicate (length calls) Undo) (run calls (newMapLayoutHistory cells0)))) = []"
proof -
  let ?s0 = "newMapLayoutHistory cells0"
  have "path cells0 []" by simp
  moreover have "?s0 = \<lparr>cells = pathEnd cells0 [], history = map fst [],
      i = int (length ([] :: (MapLayoutHistoryEntry \<times> Cell list) list)), console = []\<rparr>"
    by (simp add: newMapLayoutHistory_def pathEnd_def)
  ultimately obtain steps where
    p: "path cells0 steps" and n: "length steps = length calls"
    and r: "run calls ?s0 = \<lparr>cells = pathEnd cells0 steps, history = map fst steps,
               i = int (length steps), console = []\<rparr>"
    and c: "allComplete calls ?s0"
    using commits_path[OF assms, of cells0 "[]" "[]"] by auto
  have u: "run (replicate (length calls) Undo) (run calls ?s0)
        = \<lparr>cells = cells0, history = map fst steps, i = 0, console = []\<rparr>"
    using undo_path[OF p, of "[]" "[]"] r n by simp
  have d: "run (replicate (length calls) Redo)
        \<lparr>cells = cells0, history = map fst steps, i = 0, console = []\<rparr> = run calls ?s0"
    using redo_path[OF p, of "[]" "[]"] r n by simp
  show ?thesis unfolding u d using c r n by simp
qed

lemma edits_valid: "validCommits edits (newMapLayoutHistory floor3)"
  by (simp add: edits_def floor3_def stable_def stableCell_def history_defs)

theorem undo_redo_inverse_witness:
  "validCommits edits (newMapLayoutHistory floor3)
   \<and> cells (run edits (newMapLayoutHistory floor3))
       = [CObj \<lparr>name_of = JStr ''A1'', type_of = JStr ''aisle'', styleOverride_of = JUndefined\<rparr>,
          CNull, seat ''D'']
   \<and> cells (run (replicate 4 Undo) (run edits (newMapLayoutHistory floor3))) = floor3
   \<and> cells (run (replicate 4 Redo) (run (replicate 4 Undo) (run edits (newMapLayoutHistory floor3))))
       = [CObj \<lparr>name_of = JStr ''A1'', type_of = JStr ''aisle'', styleOverride_of = JUndefined\<rparr>,
          CNull, seat ''D'']"
proof -
  have n: "length edits = 4" by (simp add: edits_def)
  have r: "cells (run edits (newMapLayoutHistory floor3))
       = [CObj \<lparr>name_of = JStr ''A1'', type_of = JStr ''aisle'', styleOverride_of = JUndefined\<rparr>,
          CNull, seat ''D'']"
    by (simp add: edits_def floor3_def history_defs)
  from undo_redo_inverse [OF edits_valid]
  have "cells (run (replicate 4 Undo) (run edits (newMapLayoutHistory floor3))) = floor3"
    and "cells (run (replicate 4 Redo) (run (replicate 4 Undo) (run edits (newMapLayoutHistory floor3))))
       = cells (run edits (newMapLayoutHistory floor3))"
    unfolding n by blast+
  then show ?thesis using edits_valid r by simp
qed

text \<open>A first name given to an unnamed seat by the batched call, with the true old value
  \<^verbatim>\<open>undefined\<close>: the call completes, the log keeps \<^verbatim>\<open>null\<close> for the old value, and \<^verbatim>\<open>undo\<close>
  leaves the seat with the name \<^verbatim>\<open>null\<close>, not without a name.\<close>

theorem undo_of_first_name:
  "fst (perform (CallChangeAttributes [0] name [JUndefined] [JStr ''1''])
          (newMapLayoutHistory [unnamedSeat])) = None
   \<and> cells (run [CallChangeAttributes [0] name [JUndefined] [JStr ''1''], Undo]
              (newMapLayoutHistory [unnamedSeat]))
       = [CObj \<lparr>name_of = JNull, type_of = JStr ''seat'', styleOverride_of = JUndefined\<rparr>]
   \<and> cells (run [CallChangeAttributes [0] name [JUndefined] [JStr ''1''], Undo]
              (newMapLayoutHistory [unnamedSeat]))
       \<noteq> cells (newMapLayoutHistory [unnamedSeat])"
  by (simp add: unnamedSeat_def history_defs)

text \<open>A commit that passes an old value the model does not hold: \<^verbatim>\<open>undo\<close> writes that value.\<close>

lemma undo_of_untruthful_commit:
  "fst (perform (CallChangeAttribute 0 name (JStr ''1'') (JStr ''1'')) (newMapLayoutHistory [seat ''A''])) = None
   \<and> cells (run [CallChangeAttribute 0 name (JStr ''1'') (JStr ''1''), Undo] (newMapLayoutHistory [seat ''A'']))
       = [seat ''1'']"
  by (simp add: history_defs)

section \<open>Properties of the collision dispatcher\<close>

lemmas dispatcher_defs =
  mousedown_def mousemove_def mouseup_def leftClick_def addEventListener_def registerCollisions_def
  newCollisionManager_def noCollision_def contained_def clickedRegions_def region_def manager_def
  at_def MouseButtons_LEFT_def

lemma filter_contained:
  "filter (\<lambda>collision. col_x collision \<le> px \<and> col_x collision + col_width collision \<ge> px \<and>
       col_y collision \<le> py \<and> col_y collision + col_height collision \<ge> py) cs
   = filter (contained px py) cs"
  by (rule filter_cong) (auto simp: contained_def)



text \<open>
  C6 (as amended). On a pointer up event the click listeners fire once per region of the
  clicked-region set, which holds the regions that contain the release position when it
  equals the anchor and is empty otherwise; the drag-end listeners are invoked if and
  only if that set is empty, that is when the release position differs from the anchor
  and also when it equals the anchor but no registered region contains it.
\<close>

theorem release_dispatch:
  "fst (mouseup event s)
     = concat (map (\<lambda>collision. map (\<lambda>listener.
            CollisionCallback Click listener collision (mouseButtonsDown s)) (listeners_click s))
          (clickedRegions event s))
       @ (if clickedRegions event s = []
          then map (\<lambda>listener. DragCallback DragEnd listener
                 (offsetX event - fst (drag_latest s)) (offsetY event - snd (drag_latest s))
                 (mouseButtonsDown s)) (listeners_dragend s)
          else [])"
  by (cases "drag_start s") (auto simp: mouseup_def Let_def filter_contained clickedRegions_def)

text \<open>A press and a release at \<open>(5, 5)\<close>, outside every region: the release position equals
  the anchor and the drag-end listener is invoked.\<close>

theorem click_on_empty_space_ends_drag:
  "fst (mouseup (at 5 5) (mousedown (at 5 5) manager)) = [DragCallback DragEnd ''onDragEnd'' 0 0 [0]]"
  by (simp add: dispatcher_defs)

text \<open>A press at \<open>(5, 5)\<close>, a move to \<open>(8, 5)\<close> and the release there: the drag listener
  during the move, the drag-end listener on release, no click.\<close>

lemma drag_then_release:
  "fst (mousemove (at 8 5) (mousedown (at 5 5) manager))
     = [DragCallback Drag ''onDrag'' 3 0 [0], CollisionCallback Hover ''onHover'' noCollision [0]]
   \<and> fst (mouseup (at 8 5) (snd (mousemove (at 8 5) (mousedown (at 5 5) manager))))
     = [DragCallback DragEnd ''onDragEnd'' 0 0 [0]]"
  by (simp add: dispatcher_defs)


section \<open>Properties of element addressing\<close>

subsection \<open>Malformed addresses\<close>

text \<open>
  C8. Malformed addresses: a string whose item part is not purely numeric, such as
  \<open>1a\<close>, is to resolve to none. \<^verbatim>\<open>parseRef\<close> checks a top-level address with \<^verbatim>\<open>parseInt\<close>, which reads
  the leading digits and ignores what follows: \<open>1a\<close> parses as item 1 and resolves to the
  element at position 1. The grouped form is matched against \<^verbatim>\<open>/^(\d+)_(\d+)$/\<close>, and
  \<open>1_2_3\<close> and \<open>_5\<close> resolve to none.
\<close>

theorem malformed_address_resolves:
  "parseRef ''1a'' = Some \<lparr>groupIndex = None, itemIndex = 1, controlSymbol = None\<rparr>
   \<and> getInputByRef [Label ''Style'', Input ''Text'' ''text''] ''1a'' = Some (Input ''Text'' ''text'')
   \<and> getInputByRef [Label ''Style'', Input ''Text'' ''text''] ''1_2_3'' = None
   \<and> getInputByRef [Label ''Style'', Input ''Text'' ''text''] ''_5'' = None"
  by code_simp

subsection \<open>Addresses written by the code parse back\<close>

lemma isDecimalDigit_iff:
  "isDecimalDigit c \<longleftrightarrow> c \<in> set ''0123456789''"
  by (auto simp: isDecimalDigit_def isRadixDigit_def digitValue_def split: option.splits if_splits)

lemma digit_not_special:
  assumes "isDecimalDigit c"
  shows "\<not> isStrWhiteSpaceChar c" "c \<noteq> CHR ''-''" "c \<noteq> CHR ''+''" "c \<noteq> CHR ''x''" "c \<noteq> CHR ''X''" "c \<noteq> CHR ''_''"
  using assms by (auto simp: isDecimalDigit_iff isStrWhiteSpaceChar_def)

lemma digitChar_value: "d < 10 \<Longrightarrow> digitValue (digitChar d) = Some d"
proof -
  assume "d < 10"
  then have "d \<in> {0, 1, 2, 3, 4, 5, 6, 7, 8, 9}" by auto
  then show ?thesis by (auto simp: digitChar_def digitValue_def)
qed

lemma digitChar_digit: "d < 10 \<Longrightarrow> isDecimalDigit (digitChar d)"
  by (simp add: isDecimalDigit_def isRadixDigit_def digitChar_value)

declare toString.simps [simp del]

lemma toString_digits: "list_all isDecimalDigit (toString n)"
  by (induction n rule: toString.induct) (subst toString.simps, auto simp: digitChar_digit)

lemma toString_nonempty: "toString n \<noteq> []"
  by (subst toString.simps) simp

lemma digitsValue_snoc:
  "digitsValue r acc (cs @ [c]) = digitsValue r acc cs * r + (case digitValue c of None \<Rightarrow> 0 | Some d \<Rightarrow> d)"
  by (induction cs arbitrary: acc) auto

lemma digitsValue_toString: "digitsValue 10 0 (toString n) = n"
proof (induction n rule: toString.induct)
  case (1 n)
  show ?case
  proof (cases "n < 10")
    case True
    then show ?thesis by (subst toString.simps) (simp add: digitChar_value)
  next
    case False
    have "digitsValue 10 0 (toString n) = digitsValue 10 0 (toString (n div 10) @ [digitChar (n mod 10)])"
      using False by (subst toString.simps) simp
    also have "\<dots> = (n div 10) * 10 + n mod 10"
      using 1[OF False] by (simp add: digitsValue_snoc digitChar_value)
    finally show ?thesis by simp
  qed
qed

lemma parseInt_digits:
  assumes "s \<noteq> []" "list_all isDecimalDigit s"
  shows "parseInt s = Some (int (digitsValue 10 0 s))"
proof -
  obtain c r where s: "s = c # r" using assms(1) by (cases s) auto
  have c: "isDecimalDigit c" using assms(2) s by simp
  have nohex: "\<not> (case s of c # d # _ \<Rightarrow> c = CHR ''0'' \<and> (d = CHR ''x'' \<or> d = CHR ''X'') | _ \<Rightarrow> False)"
    using assms(2) by (auto split: list.splits dest: digit_not_special)
  have tw: "takeWhile (isRadixDigit 10) s = s"
    using assms(2) by (simp add: isDecimalDigit_def[abs_def] list_all_iff)
  have dw: "dropWhile isStrWhiteSpaceChar s = s"
    using s c by (simp add: digit_not_special)
  show ?thesis
    unfolding parseInt_def dw using nohex tw assms(1) c s
    by (simp add: Let_def digit_not_special)
qed

lemma parseInt_toString: "parseInt (toString n) = Some (int n)"
  by (simp add: parseInt_digits toString_digits toString_nonempty digitsValue_toString)

lemma toString_no_underscore: "CHR ''_'' \<notin> set (toString n)"
  using toString_digits[of n] by (auto simp: list_all_iff dest: digit_not_special)

lemma toString_last: "isDecimalDigit (last (toString n))"
  using toString_digits[of n] toString_nonempty[of n] by (simp add: list_all_iff)

lemma parseRef_toString:
  "parseRef (toString n) = Some \<lparr>groupIndex = None, itemIndex = int n, controlSymbol = None\<rparr>"
proof -
  have "\<not> endsWith (toString n) (CHR ''-'')" "\<not> endsWith (toString n) (CHR ''+'')"
    using toString_last[of n] by (auto simp: endsWith_def dest: digit_not_special)
  then show ?thesis
    by (simp add: parseRef_def toString_no_underscore parseInt_toString)
qed

lemma matchGroupItem_ref:
  "matchGroupItem (toString g @ ''_'' @ toString n) = Some (toString g, toString n)"
proof -
  have nd: "\<not> isDecimalDigit (CHR ''_'')" by (simp add: isDecimalDigit_iff)
  have all: "\<forall>c \<in> set (toString g). isDecimalDigit c" using toString_digits[of g] by (simp add: list_all_iff)
  have t: "takeWhile isDecimalDigit (toString g @ CHR ''_'' # toString n) = toString g"
    using all nd by (simp add: takeWhile_tail)
  have d: "dropWhile isDecimalDigit (toString g @ CHR ''_'' # toString n) = CHR ''_'' # toString n"
    using all nd by (simp add: dropWhile_append3)
  show ?thesis
    by (simp add: matchGroupItem_def t d toString_nonempty toString_digits)
qed

lemma parseRef_grouped:
  "parseRef (toString g @ ''_'' @ toString n)
     = Some \<lparr>groupIndex = Some (int g), itemIndex = int n, controlSymbol = None\<rparr>"
proof -
  have "\<not> endsWith (toString g @ ''_'' @ toString n) (CHR ''-'')"
       "\<not> endsWith (toString g @ ''_'' @ toString n) (CHR ''+'')"
    using toString_last[of n] toString_nonempty[of n] by (auto simp: endsWith_def dest: digit_not_special)
  then show ?thesis
    using matchGroupItem_ref[of g n] by (simp add: parseRef_def parseInt_toString)
qed

subsection \<open>Sequential navigation\<close>

lemma sortBy_fixed:
  "successively (\<lambda>a b. cmp a b \<le> 0) xs \<Longrightarrow> sortBy cmp xs = xs"
proof (induction xs)
  case Nil
  then show ?case by (simp add: sortBy_def)
next
  case (Cons x xs)
  then have "sortBy cmp xs = xs" by (auto simp: successively_Cons)
  then have "sortBy cmp (x # xs) = insertSorted cmp x xs" by (simp add: sortBy_def)
  then show ?case using Cons.prems by (cases xs) auto
qed

lemma leafRefs_groupedRefs: "leafRefs elements = groupedRefs elements"
proof -
  have "\<And>g e. (case e of Group l es \<Rightarrow> map (\<lambda>n. toString g @ ''_'' @ toString n) [0 ..< length es] | _ \<Rightarrow> [])
        = groupRefs g e"
    by (case_tac e) auto
  then show ?thesis by (simp add: leafRefs_def groupedRefs_def)
qed

lemma groupedRefs_elem:
  assumes "r \<in> set (groupedRefs elements)"
  obtains g n l es where "r = toString g @ ''_'' @ toString n" "g < length elements"
    "elements ! g = Group l es" "n < length es"
proof -
  from assms obtain g where g: "g < length elements" "r \<in> set (groupRefs g (elements ! g))"
    by (auto simp: groupedRefs_def)
  then obtain l es where e: "elements ! g = Group l es" by (cases "elements ! g") auto
  with g obtain n where "n < length es" "r = toString g @ ''_'' @ toString n" by auto
  with g e that show ?thesis by blast
qed

lemma inputs_prefix:
  assumes "inputsFirst elements"
  shows "filter isInput elements = takeWhile isInput elements"
proof -
  have "filter isInput (dropWhile isInput elements) = []"
    using assms by (simp add: inputsFirst_def list_all_iff filter_empty_conv)
  moreover have "filter isInput (takeWhile isInput elements) = takeWhile isInput elements"
    by (simp add: filter_id_conv) (meson set_takeWhileD)
  ultimately show ?thesis
    by (metis append_Nil2 filter_append takeWhile_dropWhile_id)
qed

lemma input_position:
  assumes "inputsFirst elements" "p < length elements"
  shows "isInput (elements ! p) \<longleftrightarrow> p < length (filter isInput elements)"
proof -
  let ?a = "takeWhile isInput elements" and ?b = "dropWhile isInput elements"
  have split: "elements = ?a @ ?b" by simp
  have k: "filter isInput elements = ?a" using assms(1) by (rule inputs_prefix)
  show ?thesis
  proof (cases "p < length ?a")
    case True
    then have "elements ! p = ?a ! p" by (rule takeWhile_nth[symmetric])
    moreover have "isInput (?a ! p)" using True by (meson nth_mem set_takeWhileD)
    ultimately show ?thesis using True k by simp
  next
    case False
    then have "elements ! p = ?b ! (p - length ?a)"
      by (metis split nth_append)
    moreover have "p - length ?a < length ?b"
      using False assms(2) by (metis split length_append less_diff_conv2 not_less add.commute)
    ultimately have "\<not> isInput (elements ! p)"
      using assms(1) by (simp add: inputsFirst_def list_all_length)
    then show ?thesis using False k by simp
  qed
qed

lemma topLevelRefs_availableRefs:
  assumes "inputsFirst elements"
  shows "topLevelRefs elements = availableRefs elements"
proof -
  let ?k = "length (filter isInput elements)"
  have le: "?k \<le> length elements" by simp
  have "filter (\<lambda>p. isInput (elements ! p)) [0 ..< length elements]
        = filter (\<lambda>p. p < ?k) [0 ..< length elements]"
    by (rule filter_cong) (auto simp: input_position[OF assms])
  also have "\<dots> = [0 ..< ?k]"
  proof -
    have "[0 ..< length elements] = [0 ..< ?k] @ [?k ..< length elements]"
      using le by (metis le_add_diff_inverse upt_add_eq_append zero_le)
    then show ?thesis by (simp add: filter_empty_conv)
  qed
  finally show ?thesis by (simp add: topLevelRefs_def availableRefs_def)
qed

lemma compare_top_top: "compareRefs (toString p) (toString q) = int p - int q"
  by (simp add: compareRefs_def parseRef_toString)

lemma compare_top_grouped: "compareRefs (toString p) (toString g @ ''_'' @ toString n) = int p - int g"
  using parseRef_grouped[of g n] by (simp add: compareRefs_def parseRef_toString)

lemma compare_grouped_grouped:
  "compareRefs (toString g @ ''_'' @ toString n) (toString g' @ ''_'' @ toString n') = 0"
  using parseRef_grouped[of g n] parseRef_grouped[of g' n'] by (simp add: compareRefs_def)

lemma sorted_refs:
  assumes "inputsFirst elements"
  shows "sorted_wrt (\<lambda>a b. compareRefs a b \<le> 0) (availableRefs elements @ groupedRefs elements)"
proof -
  let ?P = "\<lambda>a b. compareRefs a b \<le> 0"
  have 1: "sorted_wrt ?P (availableRefs elements)"
    unfolding availableRefs_def sorted_wrt_map
    by (rule sorted_wrt_mono_rel[where P = "(<)"]) (auto simp: compare_top_top)
  have 2: "sorted_wrt ?P (groupedRefs elements)"
  proof -
    have "\<forall>a \<in> set (groupedRefs elements). \<forall>b \<in> set (groupedRefs elements). ?P a b"
      by (auto elim!: groupedRefs_elem simp: compare_grouped_grouped simp del: append.simps)
    then show ?thesis by (simp add: sorted_wrt_iff_nth_less)
  qed
  have 3: "\<forall>a \<in> set (availableRefs elements). \<forall>b \<in> set (groupedRefs elements). ?P a b"
  proof (intro ballI)
    fix a b assume a: "a \<in> set (availableRefs elements)" and b: "b \<in> set (groupedRefs elements)"
    from a obtain p where p: "p < length (filter isInput elements)" "a = toString p"
      by (auto simp: availableRefs_def)
    from b obtain g n l es where g: "b = toString g @ ''_'' @ toString n" "g < length elements"
      "elements ! g = Group l es" by (rule groupedRefs_elem)
    have "\<not> isInput (elements ! g)" using g(3) by simp
    then have "length (filter isInput elements) \<le> g"
      using input_position[OF assms g(2)] by simp
    then show "?P a b" using p g(1) by (simp add: compare_top_grouped del: append.simps)
  qed
  show ?thesis using 1 2 3 by (simp add: sorted_wrt_append)
qed

lemma allRefs_canonical:
  assumes "inputsFirst elements"
  shows "allRefs elements = canonicalRefs elements"
  using sortBy_fixed[OF successively_if_sorted_wrt[OF sorted_refs[OF assms]]]
  by (simp add: allRefs_def canonicalRefs_def topLevelRefs_availableRefs[OF assms] leafRefs_groupedRefs)

lemma toString_inj: "toString p = toString q \<Longrightarrow> p = q"
  by (metis digitsValue_toString)

lemma grouped_inj:
  assumes "toString g @ ''_'' @ toString n = toString g' @ ''_'' @ toString n'"
  shows "g = g' \<and> n = n'"
proof -
  have "parseRef (toString g @ ''_'' @ toString n) = parseRef (toString g' @ ''_'' @ toString n')"
    using assms by simp
  then show ?thesis unfolding parseRef_grouped by simp
qed

lemma top_not_grouped: "toString p \<noteq> toString g @ ''_'' @ toString n"
proof
  assume "toString p = toString g @ ''_'' @ toString n"
  then have "CHR ''_'' \<in> set (toString p)" by simp
  then show False by (simp add: toString_no_underscore)
qed

lemma distinct_groupRefs: "distinct (groupRefs g e)"
proof (cases e)
  case (Group l es)
  have "inj_on (\<lambda>n. toString g @ ''_'' @ toString n) (set [0 ..< length es])"
    by (rule inj_onI) (use grouped_inj in blast)
  then show ?thesis using Group by (simp add: distinct_map)
qed simp_all

lemma groupRefs_elem:
  "r \<in> set (groupRefs g e) \<Longrightarrow> \<exists>n. r = toString g @ ''_'' @ toString n"
  by (cases e) auto

lemma distinct_upto:
  "distinct (concat (map (\<lambda>g. groupRefs g (elements ! g)) [0 ..< m]))"
proof (induction m)
  case 0
  then show ?case by simp
next
  case (Suc m)
  have "set (concat (map (\<lambda>g. groupRefs g (elements ! g)) [0 ..< m])) \<inter> set (groupRefs m (elements ! m)) = {}"
  proof (rule ccontr)
    assume "\<not> ?thesis"
    then obtain r g where r: "r \<in> set (groupRefs m (elements ! m))" "g < m" "r \<in> set (groupRefs g (elements ! g))"
      by auto
    from groupRefs_elem[OF r(1)] groupRefs_elem[OF r(3)] obtain n n' where
      "toString m @ ''_'' @ toString n = toString g @ ''_'' @ toString n'" by auto
    from grouped_inj[OF this] r(2) show False by simp
  qed
  then show ?case using Suc by (simp add: distinct_groupRefs)
qed

lemma distinct_refs: "distinct (availableRefs elements @ groupedRefs elements)"
proof -
  have "inj_on toString (set [0 ..< length (filter isInput elements)])"
    by (rule inj_onI) (use toString_inj in blast)
  then have 1: "distinct (availableRefs elements)" by (simp add: availableRefs_def distinct_map)
  have 2: "distinct (groupedRefs elements)" unfolding groupedRefs_def by (rule distinct_upto)
  have 3: "set (availableRefs elements) \<inter> set (groupedRefs elements) = {}"
  proof (rule ccontr)
    assume "\<not> ?thesis"
    then obtain r where a: "r \<in> set (availableRefs elements)" and b: "r \<in> set (groupedRefs elements)"
      by auto
    from a obtain p where "r = toString p" by (auto simp: availableRefs_def)
    moreover from b obtain g n where "r = toString g @ ''_'' @ toString n"
      by (auto elim: groupedRefs_elem)
    ultimately show False using top_not_grouped by metis
  qed
  show ?thesis using 1 2 3 by simp
qed

lemma scanRefs_absent: "ref \<notin> set rest \<Longrightarrow> scanRefs ref refs rest = None"
  by (induction rest) auto

lemma scanRefs_found:
  "distinct rest \<Longrightarrow> n < length rest \<Longrightarrow>
   scanRefs (rest ! n) refs rest =
     (if Suc n < length rest then Some (rest ! Suc n)
      else (case refs of first # _ \<Rightarrow> Some first | [] \<Rightarrow> None))"
proof (induction rest arbitrary: n)
  case Nil
  then show ?case by simp
next
  case (Cons r rest)
  show ?case
  proof (cases n)
    case 0
    then show ?thesis by (cases rest) auto
  next
    case (Suc m)
    then have "rest ! m \<noteq> r" using Cons.prems by auto
    then show ?thesis using Suc Cons by auto
  qed
qed

lemma scanRefs_next:
  assumes "distinct refs" "n < length refs"
  shows "scanRefs (refs ! n) refs refs = Some (refs ! ((n + 1) mod length refs))"
proof (cases "Suc n < length refs")
  case True
  then show ?thesis using scanRefs_found[OF assms] by simp
next
  case False
  then have "n + 1 = length refs" using assms(2) by simp
  then show ?thesis using scanRefs_found[OF assms] False assms(2) by (cases refs) (auto simp: nth_Cons')
qed

lemma parseRef_generated:
  assumes "r \<in> set (availableRefs elements @ groupedRefs elements)"
  shows "parseRef r \<noteq> None"
proof (cases "r \<in> set (availableRefs elements)")
  case True
  then obtain p where "r = toString p" by (auto simp: availableRefs_def)
  then show ?thesis by (simp add: parseRef_toString)
next
  case False
  then have "r \<in> set (groupedRefs elements)" using assms by simp
  then obtain g n where "r = toString g @ ''_'' @ toString n" by (auto elim: groupedRefs_elem)
  then show ?thesis using parseRef_grouped[of g n] by simp
qed

text \<open>
  C5 (as amended). For every element tree in which the top-level input elements precede
  every other top-level element, \<^verbatim>\<open>getNextInputRef\<close> enumerates the addresses in the
  canonical order: the addresses of the top-level input elements, each addressed by its
  position in the full element list, in ascending position order, followed by the
  addresses of all leaves of all groups, ordered by group index and item index. It
  returns the address that follows the given one in that order, the first address when
  the given one is last, and none when the given address is not in the list. With input
  elements at positions 0 and 1 and a group of two leaves at position 2, repeated next
  traverses \<open>0 \<rightarrow> 1 \<rightarrow> 2_0 \<rightarrow> 2_1 \<rightarrow> 0\<close>.
\<close>

theorem next_input_ref:
  assumes "inputsFirst elements"
  shows "allRefs elements = canonicalRefs elements
    \<and> (n < length (canonicalRefs elements) \<longrightarrow>
         getNextInputRef elements (canonicalRefs elements ! n)
           = Some (canonicalRefs elements ! ((n + 1) mod length (canonicalRefs elements))))
    \<and> (ref \<notin> set (canonicalRefs elements) \<longrightarrow> getNextInputRef elements ref = None)"
proof -
  have c: "allRefs elements = canonicalRefs elements"
    using assms by (rule allRefs_canonical)
  have e: "canonicalRefs elements = availableRefs elements @ groupedRefs elements"
    by (simp add: canonicalRefs_def topLevelRefs_availableRefs[OF assms] leafRefs_groupedRefs)
  have d: "distinct (canonicalRefs elements)" unfolding e by (rule distinct_refs)
  have nx: "getNextInputRef elements (canonicalRefs elements ! n)
           = Some (canonicalRefs elements ! ((n + 1) mod length (canonicalRefs elements)))"
    if n: "n < length (canonicalRefs elements)"
  proof -
    have "parseRef (canonicalRefs elements ! n) \<noteq> None"
      using parseRef_generated[of "canonicalRefs elements ! n" elements] n unfolding e[symmetric]
      by simp
    then show ?thesis
      using scanRefs_next[OF d n] by (auto simp: getNextInputRef_def c)
  qed
  have ab: "getNextInputRef elements ref = None" if "ref \<notin> set (canonicalRefs elements)"
    using that by (simp add: getNextInputRef_def c scanRefs_absent split: option.splits)
  show ?thesis using c nx ab by blast
qed

lemma menu_refs: "canonicalRefs menu = [''0'', ''1'', ''2_0'', ''2_1'']"
  by code_simp

lemma menu_inputsFirst: "inputsFirst menu"
  by code_simp

theorem next_input_ref_witness:
  "inputsFirst menu
   \<and> allRefs menu = [''0'', ''1'', ''2_0'', ''2_1'']
   \<and> getNextInputRef menu ''0'' = Some ''1''
   \<and> getNextInputRef menu ''1'' = Some ''2_0''
   \<and> getNextInputRef menu ''2_0'' = Some ''2_1''
   \<and> getNextInputRef menu ''2_1'' = Some ''0''
   \<and> getNextInputRef menu ''2'' = None"
  using next_input_ref [OF menu_inputsFirst, of 0 "''2''"]
    next_input_ref [OF menu_inputsFirst, of 1 "''2''"]
    next_input_ref [OF menu_inputsFirst, of 2 "''2''"]
    next_input_ref [OF menu_inputsFirst, of 3 "''2''"]
  by (simp add: menu_refs menu_inputsFirst)

text \<open>The tree of the navigation example, with input elements at positions 0 and 2 and a
  group of two input leaves at position 1: the address after \<open>0\<close> is \<open>1\<close>, not \<open>2\<close>, and
  \<open>2\<close> is not in the list.\<close>

theorem example_traversal:
  "getNextInputRef exampleMenu ''0'' = Some ''1''
   \<and> getNextInputRef exampleMenu ''0'' \<noteq> Some ''2''
   \<and> getNextInputRef exampleMenu ''2'' = None"
  by code_simp

text \<open>A group before the input elements: the comparator puts the address of its leaf
  between the two top-level addresses, not after them.\<close>

lemma group_before_inputs:
  "allRefs [Group ''Border'' [Input ''Color'' ''borderColor''], Input ''Text'' ''text'',
            Input ''Size'' ''textSize'']
     = [''0'', ''0_0'', ''1'']"
  by code_simp

end
